theory Spec2Isabelle
  imports Main
begin
section \<open>Strings as the JavaScript code uses them\<close>

text \<open>
  A string is the list of its code units, and the model covers the strings whose code
  units are below 256 (the Latin-1 range). On this range \<open>toLowerCase\<close> lowers the letters
  \<open>A\<close>..\<open>Z\<close> and the letters from U+00C0 to U+00DE except the sign U+00D7, and the
  white space removed by \<open>trim\<close> and skipped by \<open>parseInt\<close> is tab, line feed, vertical
  tab, form feed, carriage return, space and the no-break space U+00A0.
\<close>

definition toLowerCase_char :: "char \<Rightarrow> char" where
  "toLowerCase_char c =
     (case map_of (zip ''ABCDEFGHIJKLMNOPQRSTUVWXYZ'' ''abcdefghijklmnopqrstuvwxyz'') c of
        Some l \<Rightarrow> l
      | None \<Rightarrow>
          (if 192 \<le> (of_char c :: nat) \<and> (of_char c :: nat) \<le> 222 \<and> (of_char c :: nat) \<noteq> 215
           then char_of ((of_char c :: nat) + 32)
           else c))"

definition toLowerCase :: "string \<Rightarrow> string" where
  "toLowerCase s = map toLowerCase_char s"

definition is_white :: "char \<Rightarrow> bool" where
  "is_white c = ((of_char c :: nat) \<in> {9, 10, 11, 12, 13, 32, 160})"

definition trim :: "string \<Rightarrow> string" where
  "trim s = rev (dropWhile is_white (rev (dropWhile is_white s)))"

text \<open>
  The decimal rendering of a counter inside a template literal
  (\<^verbatim>\<open>`text_${ID.current++}`\<close>): no sign, no leading zero.
\<close>

definition digit_char :: "nat \<Rightarrow> char" where
  "digit_char d = ''0123456789'' ! d"

function show_nat :: "nat \<Rightarrow> string" where
  "show_nat n = (if n < 10 then [digit_char n] else show_nat (n div 10) @ [digit_char (n mod 10)])"
  by pat_completeness auto
termination
  by (relation "measure id") auto

declare show_nat.simps [simp del]

definition text_handle :: "nat \<Rightarrow> string" where
  "text_handle n = ''text_'' @ show_nat n"

definition element_handle :: "nat \<Rightarrow> string" where
  "element_handle n = ''element_'' @ show_nat n"

section \<open>The document tree read by the snapshot builder\<close>

text \<open>
  An element carries what \<open>buildDomTree\<close> reads from it: \<open>node.id\<close>, \<open>tagName\<close>, the
  attribute list behind \<open>getAttributeNames\<close> and \<open>getAttribute\<close>, the rendered size, the
  three computed style properties read by \<open>isElementVisible\<close>, and whether the
  \<open>onclick\<close> property holds a handler. A node that is neither an element nor a text node
  (a comment, for instance) is \<open>OtherNode\<close>.
\<close>

record element =
  node_id :: string
  tagName :: string
  attrs :: "(string \<times> string) list"
  offsetWidth :: int
  offsetHeight :: int
  style_visibility :: string
  style_display :: string
  style_opacity :: string
  onclick :: bool

datatype dom_node =
    ElementNode element "dom_node list"
  | TextNode string
  | OtherNode

text \<open>\<open>document.body\<close>: the body element, or nothing while the page is navigating.\<close>

type_synonym document = "dom_node option"

section \<open>The snapshot\<close>

record node_data =
  nd_tagName :: string
  nd_attributes :: "string \<rightharpoonup> string"
  children :: "string list"
  isVisible :: bool
  isInteractive :: "bool option"
  highlightIndex :: "nat option"

datatype map_entry =
    ELEMENT node_data
  | TEXT_NODE string "string option"
  | ERROR string

record node_metrics =
  totalNodes :: nat
  processedNodes :: nat
  skippedNodes :: nat

text \<open>The variables of the closure that the traversal reads and writes.\<close>

record build_state =
  cur_highlightIndex :: nat
  DOM_HASH_MAP :: "string \<rightharpoonup> map_entry"
  ID_current :: nat
  rootId_var :: "string option"
  PERF_METRICS :: "node_metrics option"

record args =
  doHighlightElements :: bool
  focusHighlightIndex :: int
  viewportExpansion :: int
  debugMode :: bool

record snapshot =
  rootId :: "string option"
  snapshot_map :: "string \<rightharpoonup> map_entry"
  perfMetrics :: "node_metrics option"

definition getAttribute :: "element \<Rightarrow> string \<Rightarrow> string option" where
  "getAttribute e name = map_of (attrs e) name"

definition getAttributeNames :: "element \<Rightarrow> string list" where
  "getAttributeNames e = remdups (map fst (attrs e))"

text \<open>
  \<open>getElementAttributes\<close>: the assignment \<open>attributes[name] = value\<close> adds the key \<open>name\<close>,
  except for the name \<open>__proto__\<close>, where it calls the setter of the prototype, which
  ignores a string and adds no key.
\<close>

definition getElementAttributes :: "element \<Rightarrow> (string \<rightharpoonup> string)" where
  "getElementAttributes e =
     fold (\<lambda>name attributes.
             if name = ''__proto__'' then attributes
             else attributes(name := getAttribute e name))
       (getAttributeNames e) Map.empty"

definition isElementVisible :: "element \<Rightarrow> bool" where
  "isElementVisible e \<longleftrightarrow>
     offsetWidth e > 0 \<and> offsetHeight e > 0 \<and>
     style_visibility e \<noteq> ''hidden'' \<and> style_display e \<noteq> ''none'' \<and> style_opacity e \<noteq> ''0''"

definition interactiveElements :: "string list" where
  "interactiveElements = [''a'', ''button'', ''input'', ''select'', ''textarea'', ''details'', ''summary'']"

definition isInteractiveElement :: "element \<Rightarrow> bool" where
  "isInteractiveElement e =
     (if toLowerCase (tagName e) \<in> set interactiveElements then True
      else if getAttribute e ''role'' \<in> {Some ''button'', Some ''link'', Some ''checkbox'', Some ''menuitem''}
        then True
      else if onclick e \<or> (case getAttribute e ''onclick'' of None \<Rightarrow> False | Some v \<Rightarrow> v \<noteq> [])
        then True
      else (case getAttribute e ''tabindex'' of None \<Rightarrow> False | Some t \<Rightarrow> t \<noteq> ''-1''))"

text \<open>
  Lines 106 to 130 of \<open>buildDomTree\<close>: the record of an element before its children are
  processed, and the highlight counter after it. The \<open>console.log\<close> of the highlighting
  branch is the only use of the arguments \<open>doHighlightElements\<close> and
  \<open>focusHighlightIndex\<close>; output to the console is not part of the model.
\<close>

definition init_nodeData :: "element \<Rightarrow> nat \<Rightarrow> node_data \<times> nat" where
  "init_nodeData e hl =
     (let nodeData = \<lparr> nd_tagName = toLowerCase (tagName e),
                       nd_attributes = getElementAttributes e,
                       children = [],
                       isVisible = isElementVisible e,
                       isInteractive = None,
                       highlightIndex = None \<rparr>
      in if isVisible nodeData then
           (let nodeData1 = nodeData \<lparr> isInteractive := Some (isInteractiveElement e) \<rparr>
            in if isInteractive nodeData1 = Some True
               then (nodeData1 \<lparr> highlightIndex := Some hl \<rparr>, hl + 1)
               else (nodeData1, hl))
         else (nodeData, hl))"

text \<open>
  \<open>buildDomTree(node, depth)\<close>. The first argument is \<open>node.parentElement\<close>, which the
  tree of the model does not store in the node. The result is the handle returned to the
  caller (\<open>None\<close> for \<open>null\<close>) and the state after the call. \<open>processChildren\<close> is the
  \<open>for\<close> loop over \<open>node.childNodes\<close>, with \<open>nodeData.children\<close> as accumulator.
\<close>

fun buildDomTree :: "element option \<Rightarrow> dom_node \<Rightarrow> nat \<Rightarrow> build_state \<Rightarrow> string option \<times> build_state"
  and processChildren ::
    "element option \<Rightarrow> dom_node list \<Rightarrow> nat \<Rightarrow> string list \<Rightarrow> build_state \<Rightarrow> string list \<times> build_state"
where
  "buildDomTree parent OtherNode depth s = (None, s)"
| "buildDomTree parent (TextNode textContent) depth s =
     (if trim textContent \<noteq> [] then
        (let id = text_handle (ID_current s);
             s1 = s \<lparr> ID_current := ID_current s + 1 \<rparr>;
             s2 = s1 \<lparr> DOM_HASH_MAP := (DOM_HASH_MAP s1)
                     (id \<mapsto> TEXT_NODE (trim textContent)
                                (map_option (\<lambda>p. toLowerCase (tagName p)) parent)) \<rparr>
         in (Some id, s2))
      else (None, s))"
| "buildDomTree parent (ElementNode node childNodes) depth s =
     (if node_id node = ''playwright-highlight-container'' then (None, s)
      else if toLowerCase (tagName node) \<in> {''script'', ''style'', ''noscript''} then (None, s)
      else
        (let (nodeData, hl) = init_nodeData node (cur_highlightIndex s);
             s1 = s \<lparr> cur_highlightIndex := hl \<rparr>;
             (kids, s2) = (if depth < 20
                           then processChildren (Some node) childNodes (depth + 1) (children nodeData) s1
                           else (children nodeData, s1));
             id = element_handle (ID_current s2);
             s3 = s2 \<lparr> ID_current := ID_current s2 + 1 \<rparr>;
             s4 = s3 \<lparr> DOM_HASH_MAP := (DOM_HASH_MAP s3)(id \<mapsto> ELEMENT (nodeData \<lparr> children := kids \<rparr>)) \<rparr>;
             s5 = (if toLowerCase (tagName node) = ''body'' then s4 \<lparr> rootId_var := Some id \<rparr> else s4)
         in (Some id, s5)))"
| "processChildren parent [] depth acc s = (acc, s)"
| "processChildren parent (child # rest) depth acc s =
     (case buildDomTree parent child depth s of
        (None, s') \<Rightarrow> processChildren parent rest depth acc s'
      | (Some childId, s') \<Rightarrow> processChildren parent rest depth (acc @ [childId]) s')"

text \<open>
  The closure variables as lines 11 to 25 initialise them: \<open>PERF_METRICS\<close> is an object of
  three zero counters in debug mode and \<open>null\<close> otherwise.
\<close>

definition initial_state :: "args \<Rightarrow> build_state" where
  "initial_state a =
     \<lparr> cur_highlightIndex = 0, DOM_HASH_MAP = Map.empty, ID_current = 0, rootId_var = None,
       PERF_METRICS = (if debugMode a
                       then Some \<lparr> totalNodes = 0, processedNodes = 0, skippedNodes = 0 \<rparr>
                       else None) \<rparr>"

text \<open>
  \<open>buildAdvancedDomSnapshot(args)\<close>, with the document of the page as second argument.
  In debug mode the result carries \<open>perfMetrics\<close>; otherwise the key is absent.
\<close>

definition buildAdvancedDomSnapshot :: "args \<Rightarrow> document \<Rightarrow> snapshot" where
  "buildAdvancedDomSnapshot a doc =
     (let s0 = initial_state a;
          s1 = (case doc of
                  Some body \<Rightarrow> (let (r, s) = buildDomTree None body 0 s0 in s \<lparr> rootId_var := r \<rparr>)
                | None \<Rightarrow> s0 \<lparr> rootId_var := Some ''root_0'',
                              DOM_HASH_MAP := (DOM_HASH_MAP s0)(''root_0'' \<mapsto> ERROR ''No document.body available'') \<rparr>)
      in \<lparr> rootId = rootId_var s1, snapshot_map = DOM_HASH_MAP s1,
           perfMetrics = (if debugMode a then PERF_METRICS s1 else None) \<rparr>)"
section \<open>Notions used to state the properties of the snapshot\<close>

definition entry_children :: "map_entry \<Rightarrow> string list" where
  "entry_children e = (case e of ELEMENT d \<Rightarrow> children d | _ \<Rightarrow> [])"

definition children_closed :: "(string \<rightharpoonup> map_entry) \<Rightarrow> bool" where
  "children_closed m \<longleftrightarrow> (\<forall>h e. m h = Some e \<longrightarrow> set (entry_children e) \<subseteq> dom m)"

definition skipped_element :: "element \<Rightarrow> bool" where
  "skipped_element node \<longleftrightarrow>
     node_id node = ''playwright-highlight-container'' \<or>
     toLowerCase (tagName node) \<in> {''script'', ''style'', ''noscript''}"

definition store_element :: "element \<Rightarrow> node_data \<Rightarrow> string list \<Rightarrow> build_state \<Rightarrow> build_state" where
  "store_element node nodeData kids s2 =
     (let id = element_handle (ID_current s2);
          s4 = s2 \<lparr> ID_current := ID_current s2 + 1,
                    DOM_HASH_MAP := (DOM_HASH_MAP s2)(id \<mapsto> ELEMENT (nodeData \<lparr> children := kids \<rparr>)) \<rparr>
      in if toLowerCase (tagName node) = ''body'' then s4 \<lparr> rootId_var := Some id \<rparr> else s4)"

definition frame :: "build_state \<Rightarrow> build_state \<Rightarrow> bool" where
  "frame s s' \<longleftrightarrow>
     dom (DOM_HASH_MAP s) \<subseteq> dom (DOM_HASH_MAP s') \<and> ID_current s \<le> ID_current s' \<and>
     cur_highlightIndex s \<le> cur_highlightIndex s' \<and> PERF_METRICS s' = PERF_METRICS s"

definition keys_below :: "build_state \<Rightarrow> bool" where
  "keys_below s \<longleftrightarrow>
     (\<forall>h \<in> dom (DOM_HASH_MAP s). \<exists>k < ID_current s. h = text_handle k \<or> h = element_handle k)"

definition entry_ok :: "map_entry \<Rightarrow> bool" where
  "entry_ok e =
     (case e of
        ELEMENT d \<Rightarrow>
          (isVisible d \<longrightarrow> isInteractive d \<noteq> None) \<and>
          (\<not> isVisible d \<longrightarrow> isInteractive d = None) \<and>
          (highlightIndex d \<noteq> None \<longleftrightarrow> isVisible d \<and> isInteractive d = Some True)
      | _ \<Rightarrow> True)"

definition state_ok :: "build_state \<Rightarrow> bool" where
  "state_ok s \<longleftrightarrow> keys_below s \<and> children_closed (DOM_HASH_MAP s) \<and> (\<forall>h e. DOM_HASH_MAP s h = Some e \<longrightarrow> entry_ok e)"

fun snap_preorder :: "nat \<Rightarrow> (string \<rightharpoonup> map_entry) \<Rightarrow> string \<Rightarrow> (string \<times> map_entry) list" where
  "snap_preorder 0 m h = []"
| "snap_preorder (Suc fuel) m h =
     (case m h of
        None \<Rightarrow> []
      | Some e \<Rightarrow> (h, e) # concat (map (snap_preorder fuel m) (entry_children e)))"

definition entry_highlight :: "map_entry \<Rightarrow> nat option" where
  "entry_highlight e = (case e of ELEMENT d \<Rightarrow> highlightIndex d | _ \<Rightarrow> None)"

definition highlights :: "(string \<times> map_entry) list \<Rightarrow> nat list" where
  "highlights L = concat (map (\<lambda>(h, e). case entry_highlight e of None \<Rightarrow> [] | Some i \<Rightarrow> [i]) L)"

definition element_entries :: "(string \<times> map_entry) list \<Rightarrow> node_data list" where
  "element_entries L = concat (map (\<lambda>(h, e). case e of ELEMENT d \<Rightarrow> [d] | _ \<Rightarrow> []) L)"

fun kept :: "nat \<Rightarrow> dom_node \<Rightarrow> element list"
  and kept_list :: "nat \<Rightarrow> dom_node list \<Rightarrow> element list" where
  "kept depth OtherNode = []"
| "kept depth (TextNode t) = []"
| "kept depth (ElementNode e cs) =
     (if skipped_element e then []
      else e # (if depth < 20 then kept_list (depth + 1) cs else []))"
| "kept_list depth [] = []"
| "kept_list depth (c # cs) = kept depth c @ kept_list depth cs"

definition entry_view :: "node_data \<Rightarrow> string \<times> bool \<times> bool option" where
  "entry_view d = (nd_tagName d, isVisible d, isInteractive d)"

definition element_view :: "element \<Rightarrow> string \<times> bool \<times> bool option" where
  "element_view e =
     (toLowerCase (tagName e), isElementVisible e,
      if isElementVisible e then Some (isInteractiveElement e) else None)"

text \<open>
  The numbering that the claim describes, on the recorded elements of the document in
  document pre-order: an element that is visible and interactive takes the next index,
  every other element takes none. \<open>numbered_view\<close> is the same view of a record of the
  snapshot.
\<close>

fun numbered :: "nat \<Rightarrow> element list \<Rightarrow> ((string \<times> bool \<times> bool option) \<times> nat option) list" where
  "numbered i [] = []"
| "numbered i (e # es) =
     (if isElementVisible e \<and> isInteractiveElement e
      then (element_view e, Some i) # numbered (i + 1) es
      else (element_view e, None) # numbered i es)"

definition numbered_view :: "node_data \<Rightarrow> (string \<times> bool \<times> bool option) \<times> nat option" where
  "numbered_view d = (entry_view d, highlightIndex d)"

definition reads :: "nat \<Rightarrow> (string \<rightharpoonup> map_entry) \<Rightarrow> string list \<Rightarrow> (string \<times> map_entry) list \<Rightarrow> bool" where
  "reads k m hs L \<longleftrightarrow> (\<forall>fuel > k. concat (map (snap_preorder fuel m) hs) = L)"

definition segment :: "nat \<Rightarrow> build_state \<Rightarrow> build_state \<Rightarrow> string list \<Rightarrow> element list \<Rightarrow> bool" where
  "segment depth s s' hs es \<longleftrightarrow>
     (\<exists>L. reads (20 - depth) (DOM_HASH_MAP s') hs L \<and>
          distinct (map fst L) \<and>
          set (map fst L) = dom (DOM_HASH_MAP s') - dom (DOM_HASH_MAP s) \<and>
          highlights L = [cur_highlightIndex s ..< cur_highlightIndex s'] \<and>
          map entry_view (element_entries L) = map element_view es)"

text \<open>
  The document with everything below the depth bound removed: the children of an element
  at depth 20 or more are cut off.
\<close>

fun prune :: "nat \<Rightarrow> dom_node \<Rightarrow> dom_node" where
  "prune depth (ElementNode e cs) =
     ElementNode e (if depth < 20 then map (prune (depth + 1)) cs else [])"
| "prune depth (TextNode t) = TextNode t"
| "prune depth OtherNode = OtherNode"

text \<open>Elements and documents used as concrete inputs.\<close>

definition visible_el :: "string \<Rightarrow> element" where
  "visible_el tag =
     \<lparr> node_id = [], tagName = tag, attrs = [], offsetWidth = 100, offsetHeight = 20,
       style_visibility = ''visible'', style_display = ''block'', style_opacity = ''1'',
       onclick = False \<rparr>"

definition hidden_el :: "string \<Rightarrow> element" where
  "hidden_el tag =
     \<lparr> node_id = [], tagName = tag, attrs = [], offsetWidth = 0, offsetHeight = 0,
       style_visibility = ''visible'', style_display = ''none'', style_opacity = ''1'',
       onclick = False \<rparr>"

definition default_args :: args where
  "default_args =
     \<lparr> doHighlightElements = False, focusHighlightIndex = - 1, viewportExpansion = 0,
       debugMode = False \<rparr>"

definition debug_args :: args where
  "debug_args = default_args \<lparr> debugMode := True \<rparr>"

definition empty_body :: dom_node where
  "empty_body = ElementNode (visible_el ''BODY'') []"

definition two_buttons_body :: dom_node where
  "two_buttons_body =
     ElementNode (visible_el ''BODY'')
       [ElementNode (hidden_el ''BUTTON'') [], ElementNode (visible_el ''BUTTON'') []]"

definition sample_body :: dom_node where
  "sample_body =
     ElementNode (visible_el ''BODY'')
       [ElementNode (visible_el ''A'') [],
        ElementNode (hidden_el ''BUTTON'') [],
        ElementNode (visible_el ''SCRIPT'') [TextNode ''var x;''],
        TextNode ''  '',
        ElementNode (visible_el ''BUTTON'') [TextNode '' OK '']]"

section \<open>URL normalisation\<close>

fun startsWith :: "string \<Rightarrow> string \<Rightarrow> bool" where
  "startsWith s [] = True"
| "startsWith [] (p # ps) = False"
| "startsWith (c # cs) (p # ps) = (c = p \<and> startsWith cs ps)"

text \<open>
  \<open>String.prototype.replace\<close> with a global regular expression. The matcher says, for the
  rest of the string at the current position, how long the match there is and what
  replaces it (a match is at least one character long). A position without a match keeps
  its character; after a match the scan goes on behind it.
\<close>

fun replace_all :: "(string \<Rightarrow> (nat \<times> string) option) \<Rightarrow> string \<Rightarrow> string" where
  "replace_all m [] = []"
| "replace_all m (c # cs) =
     (case m (c # cs) of
        None \<Rightarrow> c # replace_all m cs
      | Some (n, r) \<Rightarrow> r @ replace_all m (drop (n - 1) cs))"

text \<open>\<^verbatim>\<open>/https?::\/\//g\<close>, replaced by \<^verbatim>\<open>'https://'\<close>.\<close>

definition match_double_colon :: "string \<Rightarrow> (nat \<times> string) option" where
  "match_double_colon s =
     (if startsWith s ''https:://'' then Some (9, ''https://'')
      else if startsWith s ''http:://'' then Some (8, ''https://'')
      else None)"

text \<open>The length of \<^verbatim>\<open>https?:\/\/\<close> at the start of the string.\<close>

definition match_scheme :: "string \<Rightarrow> nat option" where
  "match_scheme s =
     (if startsWith s ''https://'' then Some 8
      else if startsWith s ''http://'' then Some 7
      else None)"

text \<open>\<^verbatim>\<open>/https?:\/\/(https?:\/\/)/g\<close>, replaced by \<^verbatim>\<open>'$1'\<close>, the second scheme.\<close>

definition match_duplicate :: "string \<Rightarrow> (nat \<times> string) option" where
  "match_duplicate s =
     (case match_scheme s of
        None \<Rightarrow> None
      | Some n \<Rightarrow>
          (case match_scheme (drop n s) of
             None \<Rightarrow> None
           | Some k \<Rightarrow> Some (n + k, take k (drop n s))))"

text \<open>\<open>ensureUrlProtocol\<close> of the server file (\<open>part_001\<close>, lines 320 to 332).\<close>

definition ensureUrlProtocol :: "string \<Rightarrow> string" where
  "ensureUrlProtocol url =
     (let url1 = replace_all match_double_colon url;
          url2 = replace_all match_duplicate url1
      in if \<not> startsWith url2 ''http://'' \<and> \<not> startsWith url2 ''https://''
         then ''https://'' @ url2
         else url2)"

text \<open>\<open>ensureUrlProtocol\<close> of \<open>grok.js\<close> (lines 1069 to 1074).\<close>

definition ensureUrlProtocol_grok :: "string \<Rightarrow> string" where
  "ensureUrlProtocol_grok url =
     (if \<not> startsWith url ''http://'' \<and> \<not> startsWith url ''https://''
      then ''https://'' @ url
      else url)"

text \<open>
  A scheme prefix that one of the two expressions of \<open>ensureUrlProtocol\<close> matches occurs
  somewhere in the string.
\<close>

fun has_match :: "(string \<Rightarrow> (nat \<times> string) option) \<Rightarrow> string \<Rightarrow> bool" where
  "has_match m [] = False"
| "has_match m (c # cs) = (m (c # cs) \<noteq> None \<or> has_match m cs)"

section \<open>Values of the objects parsed from JSON\<close>

text \<open>
  An action is an object parsed from JSON text, or an object literal of the server. Its
  fields hold JSON values, and a field that is absent reads as \<open>undefined\<close>. Numbers are
  integers of a magnitude below \<open>10^21\<close>, which \<open>String\<close> renders in plain decimal; fractions
  are outside the model.
\<close>

datatype json =
    JUndefined
  | JNull
  | JBool bool
  | JNum int
  | JStr string
  | JArr "json list"
  | JObj "(string \<times> json) list"

type_synonym jobject = "(string \<times> json) list"

definition get_prop :: "jobject \<Rightarrow> string \<Rightarrow> json" where
  "get_prop obj k = (case map_of obj k of None \<Rightarrow> JUndefined | Some v \<Rightarrow> v)"

definition set_prop :: "jobject \<Rightarrow> string \<Rightarrow> json \<Rightarrow> jobject" where
  "set_prop obj k v =
     (if k \<in> fst ` set obj
      then map (\<lambda>(k', v'). if k' = k then (k', v) else (k', v')) obj
      else obj @ [(k, v)])"

fun truthy :: "json \<Rightarrow> bool" where
  "truthy JUndefined = False"
| "truthy JNull = False"
| "truthy (JBool b) = b"
| "truthy (JNum n) = (n \<noteq> 0)"
| "truthy (JStr s) = (s \<noteq> [])"
| "truthy (JArr xs) = True"
| "truthy (JObj kvs) = True"

text \<open>\<open>a || b\<close> on values.\<close>

definition or_else :: "json \<Rightarrow> json \<Rightarrow> json" where
  "or_else a b = (if truthy a then a else b)"

text \<open>\<open>s.includes(sub)\<close> on strings.\<close>

fun str_includes :: "string \<Rightarrow> string \<Rightarrow> bool" where
  "str_includes [] sub = (sub = [])"
| "str_includes (c # cs) sub = (startsWith (c # cs) sub \<or> str_includes cs sub)"

definition show_int :: "int \<Rightarrow> string" where
  "show_int n = (if n < 0 then ''-'' @ show_nat (nat (- n)) else show_nat (nat n))"

fun join_comma :: "string list \<Rightarrow> string" where
  "join_comma [] = []"
| "join_comma [x] = x"
| "join_comma (x # y # ys) = x @ '','' @ join_comma (y # ys)"

text \<open>\<open>String(v)\<close>.\<close>

fun js_to_string :: "json \<Rightarrow> string" where
  "js_to_string JUndefined = ''undefined''"
| "js_to_string JNull = ''null''"
| "js_to_string (JBool b) = (if b then ''true'' else ''false'')"
| "js_to_string (JNum n) = show_int n"
| "js_to_string (JStr s) = s"
| "js_to_string (JArr xs) =
     join_comma (map (\<lambda>x. if x = JUndefined \<or> x = JNull then [] else js_to_string x) xs)"
| "js_to_string (JObj kvs) = ''[object Object]''"

definition digit_value :: "char \<Rightarrow> nat" where
  "digit_value c =
     (case map_of (zip ''0123456789abcdef'' [0 ..< 16] @ zip ''ABCDEF'' [10 ..< 16]) c of
        None \<Rightarrow> 36
      | Some d \<Rightarrow> d)"

text \<open>
  \<open>parseInt(v)\<close> without a radix; \<open>None\<close> is \<open>NaN\<close>. White space at the start is skipped, a
  sign is read, a prefix \<open>0x\<close> or \<open>0X\<close> selects radix 16, and the longest run of digits is
  the value; characters behind it are ignored. The result is the integer that the digits
  denote. It is the JavaScript result for magnitudes up to \<open>2^53\<close>, the range in which every
  integer is a JavaScript number; beyond it JavaScript rounds to a double-precision
  number, which the model leaves out.
\<close>

definition parseInt_string :: "string \<Rightarrow> int option" where
  "parseInt_string s =
     (let s1 = dropWhile is_white s;
          sign = (if startsWith s1 ''-'' then - 1 else 1 :: int);
          s2 = (if startsWith s1 ''-'' \<or> startsWith s1 ''+'' then drop 1 s1 else s1);
          radix = (if startsWith s2 ''0x'' \<or> startsWith s2 ''0X'' then 16 else 10 :: nat);
          s3 = (if startsWith s2 ''0x'' \<or> startsWith s2 ''0X'' then drop 2 s2 else s2);
          ds = takeWhile (\<lambda>c. digit_value c < radix) s3
      in if ds = [] then None
         else Some (sign * int (foldl (\<lambda>a c. a * radix + digit_value c) 0 ds)))"

definition parseInt :: "json \<Rightarrow> int option" where
  "parseInt v = parseInt_string (js_to_string v)"

section \<open>The page and the other collaborators\<close>

text \<open>
  The calls that the server awaits. A selector or a value handed to the page is whatever
  the action holds, so it is a JSON value. \<open>Query\<close> is \<open>page.$\<close>, \<open>ElementClick\<close> the click on
  the element handle that \<open>page.$\<close> returned for the selector; \<open>Evaluate\<close> names the function
  evaluated in the page.
\<close>

datatype call =
    Click json bool
  | WaitForTimeout int
  | WaitForSelector json "string option" nat
  | Fill json json
  | Press json json
  | WaitForLoadState string "nat option"
  | IsVisible json
  | Query string
  | ElementClick string bool
  | Screenshot string
  | Goto string
  | Url
  | Evaluate string
  | LocatorIsVisible string
  | LocatorClick string
  | ConnectOverCDP
  | NewContext
  | NewPage
  | AssistantsRetrieve
  | ThreadsCreate
  | MessagesCreate
  | RunsCreate
  | GetAssistantResponse
  | UploadScreenshot
  | ClosePage
  | CloseContext
  | CloseBrowser

text \<open>
  How a call ends: resolved with a value or rejected with an error message, and the time
  it took, which decides \<open>Promise.race\<close> and \<open>Promise.all\<close>. The world answers a call from
  the calls made so far, the last being the one asked.
\<close>

datatype outcome = Resolved json nat | Rejected string nat

type_synonym world = "call list \<Rightarrow> outcome"

fun settle_time :: "outcome \<Rightarrow> nat" where
  "settle_time (Resolved v t) = t"
| "settle_time (Rejected m t) = t"

datatype exn = Error string | TypeError string

fun message :: "exn \<Rightarrow> string" where
  "message (Error m) = m"
| "message (TypeError m) = m"

text \<open>
  An asynchronous computation: from the world and the calls made so far to a value or a
  thrown exception, and the calls made after it.
\<close>

type_synonym 'a io = "world \<Rightarrow> call list \<Rightarrow> (exn + 'a) \<times> call list"

definition io_return :: "'a \<Rightarrow> 'a io" where
  "io_return x = (\<lambda>w tr. (Inr x, tr))"

definition io_throw :: "exn \<Rightarrow> 'a io" where
  "io_throw e = (\<lambda>w tr. (Inl e, tr))"

definition io_bind :: "'a io \<Rightarrow> ('a \<Rightarrow> 'b io) \<Rightarrow> 'b io" where
  "io_bind m f = (\<lambda>w tr. case m w tr of (Inl e, tr') \<Rightarrow> (Inl e, tr') | (Inr x, tr') \<Rightarrow> f x w tr')"

definition io_catch :: "'a io \<Rightarrow> (exn \<Rightarrow> 'a io) \<Rightarrow> 'a io" where
  "io_catch m h = (\<lambda>w tr. case m w tr of (Inl e, tr') \<Rightarrow> h e w tr' | (Inr x, tr') \<Rightarrow> (Inr x, tr'))"

definition await :: "call \<Rightarrow> json io" where
  "await c = (\<lambda>w tr. case w (tr @ [c]) of
                        Resolved v t \<Rightarrow> (Inr v, tr @ [c])
                      | Rejected m t \<Rightarrow> (Inl (Error m), tr @ [c]))"

fun awaits :: "call list \<Rightarrow> unit io" where
  "awaits [] = io_return ()"
| "awaits (c # cs) = io_bind (await c) (\<lambda>v. awaits cs)"

text \<open>
  \<open>await Promise.all([a, b])\<close>: both calls are made; the result is rejected with the error
  of the call that is rejected first (the first of the array when both are rejected at
  the same time).
\<close>

definition promise_all2 :: "call \<Rightarrow> call \<Rightarrow> unit io" where
  "promise_all2 a b =
     (\<lambda>w tr. let tr1 = tr @ [a]; tr2 = tr1 @ [b]
             in (case (w tr1, w tr2) of
                   (Resolved v1 t1, Resolved v2 t2) \<Rightarrow> (Inr (), tr2)
                 | (Rejected m1 t1, Resolved v2 t2) \<Rightarrow> (Inl (Error m1), tr2)
                 | (Resolved v1 t1, Rejected m2 t2) \<Rightarrow> (Inl (Error m2), tr2)
                 | (Rejected m1 t1, Rejected m2 t2) \<Rightarrow>
                     (Inl (Error (if t1 \<le> t2 then m1 else m2)), tr2)))"

text \<open>
  \<open>await Promise.race([a.then(() => true).catch(() => false),
  b.then(() => true).catch(() => false)])\<close>: both calls are made; the result is \<open>true\<close> or
  \<open>false\<close> as the call that ends first is resolved or rejected (the first of the array when
  both end at the same time).
\<close>

fun resolved :: "outcome \<Rightarrow> bool" where
  "resolved (Resolved v t) = True"
| "resolved (Rejected m t) = False"

definition race_resolved :: "call \<Rightarrow> call \<Rightarrow> bool io" where
  "race_resolved a b =
     (\<lambda>w tr. let tr1 = tr @ [a]; tr2 = tr1 @ [b]
             in (Inr (if settle_time (w tr1) \<le> settle_time (w tr2)
                      then resolved (w tr1) else resolved (w tr2)), tr2))"

section \<open>executeAction\<close>

record result =
  success :: bool
  error :: "string option"

definition succeeded :: result where
  "succeeded = \<lparr> success = True, error = None \<rparr>"

definition failed :: "string \<Rightarrow> result" where
  "failed m = \<lparr> success = False, error = Some m \<rparr>"

definition search_header :: json where
  "search_header = JStr ''.search-tab-filters-list-item-header''"

definition search_input :: json where
  \<open>search_input = JStr ''input[placeholder="Search"]''\<close>

definition save_to_list :: json where
  \<open>save_to_list = JStr ''text="Save to List"''\<close>

definition no_results :: json where
  "no_results = JStr ''.no-results-found''"

text \<open>
  \<open>action.inputFields?.find(f => f.placeholder === 'Search')?.value\<close>. An element of the
  array that is \<open>null\<close> makes the callback throw; a value that is neither \<open>null\<close>,
  \<open>undefined\<close> nor an array has no function \<open>find\<close>, and the call throws.
\<close>

fun find_search_field :: "json list \<Rightarrow> exn + json" where
  "find_search_field [] = Inr JUndefined"
| "find_search_field (f # fs) =
     (case f of
        JNull \<Rightarrow> Inl (TypeError ''Cannot read properties of null (reading 'placeholder')'')
      | JUndefined \<Rightarrow> Inl (TypeError ''Cannot read properties of undefined (reading 'placeholder')'')
      | JObj kvs \<Rightarrow> if get_prop kvs ''placeholder'' = JStr ''Search'' then Inr (JObj kvs)
                    else find_search_field fs
      | _ \<Rightarrow> find_search_field fs)"

definition search_field_value :: "json \<Rightarrow> exn + json" where
  "search_field_value inputFields =
     (case inputFields of
        JUndefined \<Rightarrow> Inr JUndefined
      | JNull \<Rightarrow> Inr JUndefined
      | JArr fs \<Rightarrow>
          (case find_search_field fs of
             Inl e \<Rightarrow> Inl e
           | Inr (JObj kvs) \<Rightarrow> Inr (get_prop kvs ''value'')
           | Inr _ \<Rightarrow> Inr JUndefined)
      | _ \<Rightarrow> Inl (TypeError ''action.inputFields?.find is not a function''))"

text \<open>The right-hand side of the assignment to \<open>action.value\<close> (lines 704 to 707).\<close>

definition forced_value :: "jobject \<Rightarrow> exn + json" where
  "forced_value action =
     (if truthy (get_prop action ''searchText'') then Inr (get_prop action ''searchText'')
      else (case search_field_value (get_prop action ''inputFields'') of
              Inl e \<Rightarrow> Inl e
            | Inr v \<Rightarrow> Inr (or_else v (or_else (get_prop action ''search_query'') (JStr ''pizza'')))))"

text \<open>
  Lines 692 to 710: the selector, the kind and the action after "Force invalid formats
  to valid ones", or the exception thrown on the way.
\<close>

definition normalize_action :: "jobject \<Rightarrow> exn + (json \<times> json \<times> jobject)" where
  "normalize_action action =
     (let selector = get_prop action ''selector''; validAction = get_prop action ''action''
      in if \<not> truthy selector \<or>
            validAction \<notin> {JStr ''click'', JStr ''fill'', JStr ''press'', JStr ''wait''}
         then
           (if truthy (get_prop action ''searchText'') \<or> truthy (get_prop action ''inputFields'') \<or>
               truthy (get_prop action ''search_query'')
            then (case forced_value action of
                    Inl e \<Rightarrow> Inl e
                  | Inr v \<Rightarrow> Inr (search_input, JStr ''fill'', set_prop action ''value'' v))
            else Inr (search_header, JStr ''click'', action))
         else Inr (selector, validAction, action))"

text \<open>The press of Enter together with the wait for the network to be idle.\<close>

definition press_enter_and_load :: "json \<Rightarrow> unit io" where
  "press_enter_and_load selector =
     promise_all2 (WaitForLoadState ''networkidle'' (Some 20000)) (Press selector (JStr ''Enter''))"

text \<open>The race of the two indicator waits (lines 738 to 745, 757 to 764 and 880 to 887).\<close>

definition results_visible :: "bool io" where
  "results_visible =
     race_resolved (WaitForSelector save_to_list None 5000) (WaitForSelector no_results None 5000)"

text \<open>Lines 719 to 775; the inner \<open>catch\<close> only throws the error again.\<close>

definition press_enter_search :: "json \<Rightarrow> result io" where
  "press_enter_search selector =
     io_bind (awaits [Click search_header True, WaitForTimeout 1000,
                      WaitForSelector selector (Some ''visible'') 20000,
                      Click selector True, WaitForTimeout 500]) (\<lambda>u1.
     io_bind (press_enter_and_load selector) (\<lambda>u2.
     io_bind results_visible (\<lambda>resultsVisible.
       if \<not> resultsVisible then
         io_bind (await (Click selector True)) (\<lambda>u3.
         io_bind (press_enter_and_load selector) (\<lambda>u4.
         io_bind results_visible (\<lambda>retryResultsVisible.
           if \<not> retryResultsVisible
           then io_throw (Error ''Search failed to show results after retry'')
           else io_return succeeded)))
       else io_return succeeded)))"

text \<open>Lines 779 to 801.\<close>

definition fill_search :: "json \<Rightarrow> jobject \<Rightarrow> result io" where
  "fill_search selector action =
     io_bind (awaits [Click search_header True, WaitForTimeout 1000,
                      WaitForSelector selector (Some ''visible'') 20000,
                      Click selector True,
                      Fill selector (or_else (get_prop action ''value'') (JStr ''pizza'')),
                      WaitForTimeout 500]) (\<lambda>u1.
     io_bind (await (IsVisible selector)) (\<lambda>isVisible.
       if \<not> truthy isVisible
       then io_bind (awaits [Click search_header True, WaitForTimeout 500, Click selector True])
              (\<lambda>u2. io_return succeeded)
       else io_return succeeded))"

text \<open>
  \<open>action.selector?.includes('checkbox') || action.type === 'checkbox'\<close> (line 805), on the
  selector of the action as it came in. A string is searched, an array is asked for an
  element equal to the string, and a number, a boolean or an object has no function
  \<open>includes\<close>.
\<close>

definition is_checkbox_action :: "jobject \<Rightarrow> exn + bool" where
  "is_checkbox_action action =
     (case get_prop action ''selector'' of
        JUndefined \<Rightarrow> Inr (get_prop action ''type'' = JStr ''checkbox'')
      | JNull \<Rightarrow> Inr (get_prop action ''type'' = JStr ''checkbox'')
      | JStr s \<Rightarrow> Inr (str_includes s ''checkbox'' \<or> get_prop action ''type'' = JStr ''checkbox'')
      | JArr xs \<Rightarrow> Inr (JStr ''checkbox'' \<in> set xs \<or> get_prop action ''type'' = JStr ''checkbox'')
      | _ \<Rightarrow> Inl (TypeError ''action.selector?.includes is not a function''))"

text \<open>The loop of lines 814 to 823.\<close>

fun click_first_checkbox :: "string list \<Rightarrow> result io" where
  "click_first_checkbox [] = io_throw (Error ''No matching checkbox found'')"
| "click_first_checkbox (selector # rest) =
     io_bind (await (Query selector)) (\<lambda>checkbox.
       if truthy checkbox
       then io_bind (awaits [ElementClick selector True, WaitForTimeout 500]) (\<lambda>u. io_return succeeded)
       else click_first_checkbox rest)"

text \<open>Lines 806 to 827.\<close>

definition checkbox_action :: "result io" where
  "checkbox_action =
     io_catch
       (click_first_checkbox
          [''.search-businesses-header-checkbox'', ''.checkbox-square'', ''.list-item-checkbox''])
       (\<lambda>err. io_return (failed (message err)))"

text \<open>\<open>parseInt(action.duration) || 2000\<close>.\<close>

definition wait_duration :: "json \<Rightarrow> int" where
  "wait_duration duration =
     (case parseInt duration of None \<Rightarrow> 2000 | Some n \<Rightarrow> if n = 0 then 2000 else n)"

text \<open>Lines 831 to 855.\<close>

definition generic_action :: "json \<Rightarrow> json \<Rightarrow> jobject \<Rightarrow> result io" where
  "generic_action selector validAction action =
     io_bind (await (WaitForSelector selector (Some ''visible'') 20000)) (\<lambda>u.
       if validAction = JStr ''click'' then
         io_bind (awaits [Click selector True, WaitForTimeout 1000]) (\<lambda>u1. io_return succeeded)
       else if validAction = JStr ''fill'' then
         io_bind (awaits [Fill selector (or_else (get_prop action ''value'') (JStr [])), WaitForTimeout 500])
           (\<lambda>u1. io_return succeeded)
       else if validAction = JStr ''press'' then
         io_bind (awaits [Press selector (or_else (get_prop action ''key'') (JStr ''Enter'')),
                          WaitForLoadState ''networkidle'' (Some 20000)])
           (\<lambda>u1. io_return succeeded)
       else if validAction = JStr ''wait'' then
         io_bind (await (WaitForTimeout (wait_duration (get_prop action ''duration''))))
           (\<lambda>u1. io_return succeeded)
       else io_return (failed (''Unknown action: '' @ js_to_string validAction)))"

text \<open>The body of the outer \<open>try\<close> (lines 713 to 855).\<close>

definition try_action :: "json \<Rightarrow> json \<Rightarrow> jobject \<Rightarrow> result io" where
  "try_action selector validAction action =
     (if selector = search_input \<and> validAction = JStr ''press'' \<and> get_prop action ''key'' = JStr ''Enter''
      then press_enter_search selector
      else if selector = search_input \<and> validAction = JStr ''fill''
      then fill_search selector action
      else (case is_checkbox_action action of
              Inl e \<Rightarrow> io_throw e
            | Inr True \<Rightarrow> checkbox_action
            | Inr False \<Rightarrow> generic_action selector validAction action))"

text \<open>The retry of lines 862 to 898.\<close>

definition retry_search :: "json \<Rightarrow> json \<Rightarrow> jobject \<Rightarrow> result io" where
  "retry_search selector validAction action =
     io_catch
       (io_bind (awaits [Click search_header True, WaitForTimeout 1000,
                         Click selector True, WaitForTimeout 500]) (\<lambda>u1.
          if validAction = JStr ''fill'' then
            io_bind (await (Fill selector (or_else (get_prop action ''value'') (JStr ''pizza''))))
              (\<lambda>u2. io_return succeeded)
          else if validAction = JStr ''press'' then
            io_bind (press_enter_and_load selector) (\<lambda>u2.
            io_bind results_visible (\<lambda>resultsVisible.
              if \<not> resultsVisible
              then io_throw (Error ''Search failed to show results after retry'')
              else io_return succeeded))
          else io_return succeeded))
       (\<lambda>retryError. io_return (failed (message retryError)))"

text \<open>The outer \<open>catch\<close> (lines 856 to 901).\<close>

definition catch_action :: "json \<Rightarrow> json \<Rightarrow> jobject \<Rightarrow> exn \<Rightarrow> result io" where
  "catch_action selector validAction action err =
     io_bind (await (Screenshot ''error'')) (\<lambda>u.
       if selector = search_input \<and> str_includes (message err) ''hidden''
       then retry_search selector validAction action
       else io_return (failed (message err)))"

text \<open>
  \<open>executeAction(page, action)\<close>: what the promise settles with (an exception when it is
  rejected), the action object after the call, which the caller keeps in its step log, and
  the calls made.
\<close>

definition executeAction :: "world \<Rightarrow> jobject \<Rightarrow> call list \<Rightarrow> (exn + result) \<times> jobject \<times> call list" where
  "executeAction w action tr =
     (case normalize_action action of
        Inl e \<Rightarrow> (Inl e, action, tr)
      | Inr (selector, validAction, action') \<Rightarrow>
          (let (r, tr') = io_catch (try_action selector validAction action')
                            (catch_action selector validAction action') w tr
           in (r, action', tr')))"

section \<open>Concrete actions and worlds\<close>

text \<open>A page on which every call is resolved at once, with the value \<open>true\<close>.\<close>

definition all_resolve :: world where
  "all_resolve tr = Resolved (JBool True) 0"


text \<open>
  A page on which neither the results indicator nor the no-results indicator appears: the
  two waits of 5000 ms are rejected; every other call is resolved.
\<close>

definition no_indicator :: world where
  "no_indicator tr =
     (case rev tr of
        WaitForSelector selector state timeout # earlier \<Rightarrow>
          if timeout = 5000 then Rejected ''Timeout 5000ms exceeded'' 5000
          else Resolved JUndefined 0
      | _ \<Rightarrow> Resolved JUndefined 0)"



text \<open>An action of an unknown kind whose \<open>inputFields\<close> is an object instead of an array.\<close>

definition search_object_action :: jobject where
  "search_object_action =
     [(''action'', JStr ''search''),
      (''inputFields'', JObj [(''placeholder'', JStr ''Search''), (''value'', JStr ''pizza'')])]"

definition unknown_kind_action :: jobject where
  "unknown_kind_action = [(''action'', JStr ''tap''), (''selector'', JStr ''#go'')]"

definition search_text_action :: jobject where
  "search_text_action = [(''action'', JStr ''search''), (''searchText'', JStr ''tacos'')]"

definition press_enter_action :: jobject where
  "press_enter_action =
     [(''action'', JStr ''press''), (''selector'', search_input), (''key'', JStr ''Enter'')]"

text \<open>
  The calls of a press of Enter on the search input when the first verification fails: the
  first attempt with its verification (nine calls), then the retry with its verification.
\<close>

definition press_enter_calls :: "call list" where
  "press_enter_calls =
     [Click search_header True, WaitForTimeout 1000,
      WaitForSelector search_input (Some ''visible'') 20000,
      Click search_input True, WaitForTimeout 500,
      WaitForLoadState ''networkidle'' (Some 20000), Press search_input (JStr ''Enter''),
      WaitForSelector save_to_list None 5000, WaitForSelector no_results None 5000,
      Click search_input True,
      WaitForLoadState ''networkidle'' (Some 20000), Press search_input (JStr ''Enter''),
      WaitForSelector save_to_list None 5000, WaitForSelector no_results None 5000]"

text \<open>
  For each call of a list made after the calls \<open>tr0\<close>, whether the world resolves it.
\<close>

definition outcomes_of :: "world \<Rightarrow> call list \<Rightarrow> call list \<Rightarrow> bool list" where
  "outcomes_of w tr0 cs = map (\<lambda>i. resolved (w (tr0 @ take (Suc i) cs))) [0 ..< length cs]"

text \<open>
  The scenario of the claim: of the calls above, the two indicator waits of the first
  verification and the two of the second are rejected, and every other call is resolved.
\<close>

definition verification_fails_twice :: "world \<Rightarrow> call list \<Rightarrow> bool" where
  "verification_fails_twice w tr0 \<longleftrightarrow>
     outcomes_of w tr0 press_enter_calls =
       [True, True, True, True, True, True, True, False, False,
        True, True, True, False, False]"

text \<open>Counting calls in a trace: presses of a key, and clicks that expand the search section.\<close>

fun is_press :: "call \<Rightarrow> bool" where
  "is_press (Press selector key) = True"
| "is_press c = False"

definition press_count :: "call list \<Rightarrow> nat" where
  "press_count tr = length (filter is_press tr)"

definition expand_count :: "call list \<Rightarrow> nat" where
  "expand_count tr = length (filter (\<lambda>c. c = Click search_header True) tr)"

text \<open>
  The scenario of the claim with the second verification left open: of the first twelve
  calls above, the two indicator waits of the first verification are rejected, and every
  other call is resolved, the click and the press of the retry among them.
\<close>

definition first_verification_fails :: "world \<Rightarrow> call list \<Rightarrow> bool" where
  "first_verification_fails w tr0 \<longleftrightarrow>
     outcomes_of w tr0 (take 12 press_enter_calls) =
       [True, True, True, True, True, True, True, False, False, True, True, True]"

text \<open>
  The value of \<open>retryResultsVisible\<close> (lines 757 to 764) in that scenario: whether the
  indicator wait that ends first, after the twelve calls, is resolved.
\<close>

definition retry_verified :: "world \<Rightarrow> call list \<Rightarrow> bool" where
  "retry_verified w tr0 \<longleftrightarrow> fst (results_visible w (tr0 @ take 12 press_enter_calls)) = Inr True"

text \<open>
  A page on which an indicator appears only after the second press of Enter: the waits of
  5000 ms are rejected as long as Enter was pressed less than twice; every other call is
  resolved.
\<close>

definition results_after_retry :: world where
  "results_after_retry tr =
     (case rev tr of
        WaitForSelector selector state timeout # earlier \<Rightarrow>
          if timeout = 5000 \<and> press_count tr < 2 then Rejected ''Timeout 5000ms exceeded'' 5000
          else Resolved JUndefined 0
      | _ \<Rightarrow> Resolved JUndefined 0)"

text \<open>
  The retry as the specification words it, "the full expand, click, press cycle", on the
  calls of a run: the section is expanded a second time and Enter is pressed a second time.
\<close>

definition spec_full_cycle_retry :: "call list \<Rightarrow> bool" where
  "spec_full_cycle_retry tr \<longleftrightarrow> expand_count tr = 2 \<and> press_count tr = 2"
lemma digit_char_inj: "a < 10 \<Longrightarrow> b < 10 \<Longrightarrow> digit_char a = digit_char b \<Longrightarrow> a = b"
proof -
  assume a: "a < 10" and b: "b < 10" and e: "digit_char a = digit_char b"
  have A: "a \<in> {0,1,2,3,4,5,6,7,8,9}" using a by auto
  have B: "b \<in> {0,1,2,3,4,5,6,7,8,9}" using b by auto
  show ?thesis using A B e by (auto simp: digit_char_def)
qed

lemma show_nat_nonempty: "show_nat n \<noteq> []"
  by (subst show_nat.simps) simp

lemma show_nat_length1: "length (show_nat n) = Suc 0 \<longleftrightarrow> n < 10"
  by (subst show_nat.simps) (simp add: show_nat_nonempty)

lemma show_nat_inj: "show_nat n = show_nat m \<Longrightarrow> n = m"
proof (induction n arbitrary: m rule: show_nat.induct)
  case (1 n)
  show ?case
  proof (cases "n < 10")
    case True
    then have "length (show_nat m) = Suc 0" using "1.prems" show_nat_length1 by metis
    then have m: "m < 10" by (simp add: show_nat_length1)
    from True m "1.prems" show ?thesis
      by (simp add: show_nat.simps [of n] show_nat.simps [of m] digit_char_inj)
  next
    case False
    then have "length (show_nat m) \<noteq> Suc 0" using "1.prems" show_nat_length1 by metis
    then have m: "\<not> m < 10" by (simp add: show_nat_length1)
    from False m "1.prems" have e: "show_nat (n div 10) = show_nat (m div 10)"
      and d: "digit_char (n mod 10) = digit_char (m mod 10)"
      by (simp_all add: show_nat.simps [of n] show_nat.simps [of m])
    from "1.IH" [OF False e] have q: "n div 10 = m div 10" .
    from d have r: "n mod 10 = m mod 10" by (intro digit_char_inj) simp_all
    from q r show ?thesis by (metis div_mult_mod_eq)
  qed
qed

lemma element_handle_inj [simp]: "element_handle n = element_handle m \<longleftrightarrow> n = m"
  by (auto simp: element_handle_def dest: show_nat_inj)

lemma text_handle_inj [simp]: "text_handle n = text_handle m \<longleftrightarrow> n = m"
  by (auto simp: text_handle_def dest: show_nat_inj)

lemma text_element_distinct [simp]: "text_handle n \<noteq> element_handle m" "element_handle m \<noteq> text_handle n"
  by (simp_all add: text_handle_def element_handle_def)

lemma init_nodeData_children [simp]: "children (fst (init_nodeData e hl)) = []"
  by (simp add: init_nodeData_def Let_def)

lemma init_nodeData_mono: "hl \<le> snd (init_nodeData e hl)"
  by (simp add: init_nodeData_def Let_def)

lemma buildDomTree_skip:
  "skipped_element node \<Longrightarrow> buildDomTree parent (ElementNode node cs) depth s = (None, s)"
  unfolding skipped_element_def by (cases "node_id node = ''playwright-highlight-container''") simp_all

lemma buildDomTree_keep:
  assumes "\<not> skipped_element node"
    and "init_nodeData node (cur_highlightIndex s) = (nodeData, hl)"
    and "(if depth < 20
          then processChildren (Some node) cs (depth + 1) [] (s \<lparr> cur_highlightIndex := hl \<rparr>)
          else ([], s \<lparr> cur_highlightIndex := hl \<rparr>)) = (kids, s2)"
  shows "buildDomTree parent (ElementNode node cs) depth s =
           (Some (element_handle (ID_current s2)), store_element node nodeData kids s2)"
proof -
  have ch: "children nodeData = []"
    using init_nodeData_children [of node "cur_highlightIndex s"] assms(2) by simp
  from assms(1) have a: "node_id node \<noteq> ''playwright-highlight-container''"
    and b: "toLowerCase (tagName node) \<notin> {''script'', ''style'', ''noscript''}"
    by (auto simp: skipped_element_def)
  show ?thesis
    using assms(3) unfolding buildDomTree.simps
    by (simp only: a b if_False assms(2) ch prod.case Let_def store_element_def)
       (simp split: if_splits)
qed

lemma frame_refl [simp]: "frame s s"
  by (simp add: frame_def)

lemma frame_trans: "frame s s1 \<Longrightarrow> frame s1 s2 \<Longrightarrow> frame s s2"
  unfolding frame_def by auto

lemma frame_store: "frame s2 (store_element node nodeData kids s2)"
  by (auto simp: frame_def store_element_def Let_def)

lemma frame_hl: "cur_highlightIndex s \<le> hl \<Longrightarrow> frame s (s \<lparr> cur_highlightIndex := hl \<rparr>)"
  by (simp add: frame_def)

lemma build_dom_mono:
  "buildDomTree p n d s = (r, s') \<Longrightarrow>
     frame s s' \<and> (r = None \<longrightarrow> s' = s) \<and> (\<forall>h. r = Some h \<longrightarrow> h \<in> dom (DOM_HASH_MAP s'))"
  "processChildren p cs d acc s = (res, s') \<Longrightarrow>
     frame s s' \<and> (set acc \<subseteq> dom (DOM_HASH_MAP s) \<longrightarrow> set res \<subseteq> dom (DOM_HASH_MAP s'))"
proof (induction p n d s and p cs d acc s arbitrary: r s' and res s' rule: buildDomTree_processChildren.induct)
  case (1 parent depth s)
  then show ?case by simp
next
  case (2 parent textContent depth s)
  then show ?case by (auto simp: Let_def frame_def split: if_splits)
next
  case (3 parent node childNodes depth s)
  show ?case
  proof (cases "skipped_element node")
    case True
    with "3.prems" show ?thesis by (simp add: buildDomTree_skip del: buildDomTree.simps)
  next
    case False
    obtain nodeData hl where nd: "init_nodeData node (cur_highlightIndex s) = (nodeData, hl)"
      by (cases "init_nodeData node (cur_highlightIndex s)")
    define s1 where "s1 = s \<lparr> cur_highlightIndex := hl \<rparr>"
    obtain kids s2 where k: "(if depth < 20
                           then processChildren (Some node) childNodes (depth + 1) [] s1
                           else ([], s1)) = (kids, s2)"
      by (cases "(if depth < 20
                           then processChildren (Some node) childNodes (depth + 1) [] s1
                           else ([], s1))")
    have hl: "cur_highlightIndex s \<le> hl" using init_nodeData_mono [of "cur_highlightIndex s" node] nd by simp
    have ch: "children nodeData = []" using init_nodeData_children [of node "cur_highlightIndex s"] nd by simp
    from False have a: "node_id node \<noteq> ''playwright-highlight-container''"
      and b: "toLowerCase (tagName node) \<notin> {''script'', ''style'', ''noscript''}"
      by (auto simp: skipped_element_def)
    have IH: "frame s1 s2 \<and> set kids \<subseteq> dom (DOM_HASH_MAP s2)"
    proof (cases "depth < 20")
      case True
      with k ch have "processChildren (Some node) childNodes (depth + 1) (children nodeData) s1 = (kids, s2)" by simp
      from "3.IH" [OF a b nd [symmetric] refl s1_def True this] ch show ?thesis by simp
    next
      case False
      with k show ?thesis by auto
    qed
    from "3.prems" buildDomTree_keep [OF False nd k [unfolded s1_def]]
    have r: "r = Some (element_handle (ID_current s2))" and s': "s' = store_element node nodeData kids s2"
      by simp_all
    have "frame s s'" unfolding s'
      using frame_trans [OF frame_trans [OF frame_hl [OF hl] conjunct1 [OF IH [unfolded s1_def]]] frame_store]
      by (simp add: s1_def)
    moreover have "element_handle (ID_current s2) \<in> dom (DOM_HASH_MAP s')"
      by (simp add: s' store_element_def Let_def)
    ultimately show ?thesis using r by simp
  qed
next
  case (4 parent depth acc s)
  then show ?case by simp
next
  case (5 parent child rest depth acc s)
  obtain r1 s1 where b: "buildDomTree parent child depth s = (r1, s1)"
    by (cases "buildDomTree parent child depth s")
  from "5.IH"(1) [OF b] have A: "frame s s1" and A2: "\<And>h. r1 = Some h \<Longrightarrow> h \<in> dom (DOM_HASH_MAP s1)"
    by simp_all
  from A have A3: "set acc \<subseteq> dom (DOM_HASH_MAP s) \<Longrightarrow> set acc \<subseteq> dom (DOM_HASH_MAP s1)"
    unfolding frame_def by blast
  show ?case
  proof (cases r1)
    case None
    with b "5.prems" have p: "processChildren parent rest depth acc s1 = (res, s')" by simp
    from "5.IH"(2) [OF b [symmetric] None p] A A3 show ?thesis
      by (auto intro: frame_trans)
  next
    case (Some h)
    with b "5.prems" have p: "processChildren parent rest depth (acc @ [h]) s1 = (res, s')" by simp
    from "5.IH"(3) [OF b [symmetric] Some p] A A3 A2 [OF Some] show ?thesis
      by (auto intro: frame_trans)
  qed
qed

lemma keys_below_fresh_element:
  assumes "keys_below s"
  shows "element_handle (ID_current s) \<notin> dom (DOM_HASH_MAP s)"
proof
  assume "element_handle (ID_current s) \<in> dom (DOM_HASH_MAP s)"
  with assms obtain k where "k < ID_current s"
    "element_handle (ID_current s) = text_handle k \<or> element_handle (ID_current s) = element_handle k"
    unfolding keys_below_def by blast
  then show False by auto
qed

lemma keys_below_fresh_text:
  assumes "keys_below s"
  shows "text_handle (ID_current s) \<notin> dom (DOM_HASH_MAP s)"
proof
  assume "text_handle (ID_current s) \<in> dom (DOM_HASH_MAP s)"
  with assms obtain k where "k < ID_current s"
    "text_handle (ID_current s) = text_handle k \<or> text_handle (ID_current s) = element_handle k"
    unfolding keys_below_def by blast
  then show False by auto
qed

lemma init_nodeData_ok: "entry_ok (ELEMENT (fst (init_nodeData e hl) \<lparr> children := kids \<rparr>))"
  by (auto simp: init_nodeData_def Let_def entry_ok_def)

lemma state_ok_hl [simp]: "state_ok (s \<lparr> cur_highlightIndex := hl \<rparr>) = state_ok s"
  by (simp add: state_ok_def keys_below_def)

lemma children_closed_upd:
  assumes "children_closed m" "set (entry_children e) \<subseteq> insert h (dom m)"
  shows "children_closed (m(h \<mapsto> e))"
  unfolding children_closed_def
proof (intro allI impI)
  fix k e' assume "(m(h \<mapsto> e)) k = Some e'"
  then consider "k = h" "e' = e" | "m k = Some e'" by (cases "k = h") simp_all
  then show "set (entry_children e') \<subseteq> dom (m(h \<mapsto> e))"
  proof cases
    case 1
    with assms(2) show ?thesis by auto
  next
    case 2
    with assms(1) have "set (entry_children e') \<subseteq> dom m" unfolding children_closed_def by blast
    then show ?thesis by auto
  qed
qed

lemma state_ok_store:
  assumes "state_ok s2" "set kids \<subseteq> dom (DOM_HASH_MAP s2)" "entry_ok (ELEMENT (nodeData \<lparr> children := kids \<rparr>))"
  shows "state_ok (store_element node nodeData kids s2)"
    and "DOM_HASH_MAP s2 \<subseteq>\<^sub>m DOM_HASH_MAP (store_element node nodeData kids s2)"
proof -
  let ?id = "element_handle (ID_current s2)"
  let ?m = "(DOM_HASH_MAP s2)(?id \<mapsto> ELEMENT (nodeData \<lparr> children := kids \<rparr>))"
  have m: "DOM_HASH_MAP (store_element node nodeData kids s2) = ?m"
    and i: "ID_current (store_element node nodeData kids s2) = ID_current s2 + 1"
    by (simp_all add: store_element_def Let_def)
  from assms(1) have fresh: "?id \<notin> dom (DOM_HASH_MAP s2)"
    by (simp add: state_ok_def keys_below_fresh_element)
  then show "DOM_HASH_MAP s2 \<subseteq>\<^sub>m DOM_HASH_MAP (store_element node nodeData kids s2)"
    unfolding m by (auto simp: map_le_def)
  have "keys_below (store_element node nodeData kids s2)"
    unfolding keys_below_def m i
  proof
    fix h assume "h \<in> dom ?m"
    then consider "h = ?id" | "h \<in> dom (DOM_HASH_MAP s2)" by auto
    then show "\<exists>k<ID_current s2 + 1. h = text_handle k \<or> h = element_handle k"
    proof cases
      case 1
      then show ?thesis by auto
    next
      case 2
      with assms(1) obtain k where "k < ID_current s2" "h = text_handle k \<or> h = element_handle k"
        unfolding state_ok_def keys_below_def by blast
      then show ?thesis by (intro exI [of _ k]) simp
    qed
  qed
  moreover have "children_closed ?m"
    using assms(1,2) by (intro children_closed_upd) (auto simp: state_ok_def entry_children_def)
  moreover have "\<forall>h e. ?m h = Some e \<longrightarrow> entry_ok e"
    using assms(1,3) unfolding state_ok_def by (auto split: if_splits)
  ultimately show "state_ok (store_element node nodeData kids s2)"
    unfolding state_ok_def m by simp
qed

lemma state_ok_text:
  assumes "state_ok s"
  shows "state_ok (s \<lparr> ID_current := ID_current s + 1,
                 DOM_HASH_MAP := (DOM_HASH_MAP s)(text_handle (ID_current s) \<mapsto> TEXT_NODE t pt) \<rparr>)"
    and "DOM_HASH_MAP s \<subseteq>\<^sub>m DOM_HASH_MAP (s \<lparr> ID_current := ID_current s + 1,
                 DOM_HASH_MAP := (DOM_HASH_MAP s)(text_handle (ID_current s) \<mapsto> TEXT_NODE t pt) \<rparr>)"
proof -
  let ?id = "text_handle (ID_current s)"
  let ?m = "(DOM_HASH_MAP s)(?id \<mapsto> TEXT_NODE t pt)"
  let ?s = "s \<lparr> ID_current := ID_current s + 1, DOM_HASH_MAP := ?m \<rparr>"
  from assms have fresh: "?id \<notin> dom (DOM_HASH_MAP s)"
    by (simp add: state_ok_def keys_below_fresh_text)
  then show "DOM_HASH_MAP s \<subseteq>\<^sub>m DOM_HASH_MAP ?s"
    by (auto simp: map_le_def)
  have "keys_below ?s"
    unfolding keys_below_def
  proof
    fix h assume "h \<in> dom (DOM_HASH_MAP ?s)"
    then consider "h = ?id" | "h \<in> dom (DOM_HASH_MAP s)" by auto
    then show "\<exists>k<ID_current ?s. h = text_handle k \<or> h = element_handle k"
    proof cases
      case 1
      then show ?thesis by auto
    next
      case 2
      with assms obtain k where "k < ID_current s" "h = text_handle k \<or> h = element_handle k"
        unfolding state_ok_def keys_below_def by blast
      then show ?thesis by (intro exI [of _ k]) simp
    qed
  qed
  moreover have "children_closed ?m"
    using assms by (intro children_closed_upd) (auto simp: state_ok_def entry_children_def)
  moreover have "\<forall>h e. ?m h = Some e \<longrightarrow> entry_ok e"
    using assms unfolding state_ok_def by (auto simp: entry_ok_def split: if_splits)
  ultimately show "state_ok ?s"
    unfolding state_ok_def by simp
qed

lemma build_state_ok:
  "state_ok s \<Longrightarrow> buildDomTree p n d s = (r, s') \<Longrightarrow> state_ok s' \<and> DOM_HASH_MAP s \<subseteq>\<^sub>m DOM_HASH_MAP s'"
  "state_ok s \<Longrightarrow> processChildren p cs d acc s = (res, s') \<Longrightarrow> state_ok s' \<and> DOM_HASH_MAP s \<subseteq>\<^sub>m DOM_HASH_MAP s'"
proof (induction p n d s and p cs d acc s arbitrary: r s' and res s' rule: buildDomTree_processChildren.induct)
  case (1 parent depth s)
  then show ?case by simp
next
  case (2 parent textContent depth s)
  show ?case
  proof (cases "trim textContent = []")
    case True
    with "2.prems" show ?thesis by simp
  next
    case False
    with "2.prems"(2) have "s' = s \<lparr> ID_current := ID_current s + 1,
                 DOM_HASH_MAP := (DOM_HASH_MAP s)(text_handle (ID_current s) \<mapsto> TEXT_NODE (trim textContent)
                                (map_option (\<lambda>p. toLowerCase (tagName p)) parent)) \<rparr>"
      by (auto simp: Let_def)
    with state_ok_text [OF "2.prems"(1)] show ?thesis by blast
  qed
next
  case (3 parent node childNodes depth s)
  show ?case
  proof (cases "skipped_element node")
    case True
    with "3.prems" show ?thesis by (simp add: buildDomTree_skip del: buildDomTree.simps)
  next
    case False
    obtain nodeData hl where nd: "init_nodeData node (cur_highlightIndex s) = (nodeData, hl)"
      by (cases "init_nodeData node (cur_highlightIndex s)")
    define s1 where "s1 = s \<lparr> cur_highlightIndex := hl \<rparr>"
    obtain kids s2 where k: "(if depth < 20
                           then processChildren (Some node) childNodes (depth + 1) [] s1
                           else ([], s1)) = (kids, s2)"
      by (cases "(if depth < 20
                           then processChildren (Some node) childNodes (depth + 1) [] s1
                           else ([], s1))")
    have ch: "children nodeData = []" using init_nodeData_children [of node "cur_highlightIndex s"] nd by simp
    from False have a: "node_id node \<noteq> ''playwright-highlight-container''"
      and b: "toLowerCase (tagName node) \<notin> {''script'', ''style'', ''noscript''}"
      by (auto simp: skipped_element_def)
    have wf1: "state_ok s1" using "3.prems"(1) by (simp add: s1_def)
    have IH: "state_ok s2 \<and> DOM_HASH_MAP s1 \<subseteq>\<^sub>m DOM_HASH_MAP s2 \<and> set kids \<subseteq> dom (DOM_HASH_MAP s2)"
    proof (cases "depth < 20")
      case True
      with k ch have p: "processChildren (Some node) childNodes (depth + 1) (children nodeData) s1 = (kids, s2)" by simp
      from "3.IH" [OF a b nd [symmetric] refl s1_def True wf1 p] build_dom_mono(2) [OF p] ch
      show ?thesis by simp
    next
      case False
      with k wf1 show ?thesis by auto
    qed
    from "3.prems" buildDomTree_keep [OF False nd k [unfolded s1_def]]
    have r: "r = Some (element_handle (ID_current s2))" and s': "s' = store_element node nodeData kids s2"
      by simp_all
    have ok: "entry_ok (ELEMENT (nodeData \<lparr> children := kids \<rparr>))"
      using init_nodeData_ok [where e = node and hl = "cur_highlightIndex s" and kids = kids] nd by simp
    from IH state_ok_store [where ?s2.0 = s2 and node = node, OF _ _ ok] have "state_ok s'" "DOM_HASH_MAP s2 \<subseteq>\<^sub>m DOM_HASH_MAP s'"
      unfolding s' by simp_all
    moreover have "DOM_HASH_MAP s \<subseteq>\<^sub>m DOM_HASH_MAP s2" using IH by (simp add: s1_def)
    ultimately show ?thesis by (auto intro: map_le_trans)
  qed
next
  case (4 parent depth acc s)
  then show ?case by simp
next
  case (5 parent child rest depth acc s)
  obtain r1 s1 where b: "buildDomTree parent child depth s = (r1, s1)"
    by (cases "buildDomTree parent child depth s")
  from "5.IH"(1) [OF "5.prems"(1) b] have A: "state_ok s1" "DOM_HASH_MAP s \<subseteq>\<^sub>m DOM_HASH_MAP s1"
    by simp_all
  show ?case
  proof (cases r1)
    case None
    with b "5.prems" have p: "processChildren parent rest depth acc s1 = (res, s')" by simp
    from "5.IH"(2) [OF b [symmetric] None A(1) p] A show ?thesis
      by (auto intro: map_le_trans)
  next
    case (Some h)
    with b "5.prems" have p: "processChildren parent rest depth (acc @ [h]) s1 = (res, s')" by simp
    from "5.IH"(3) [OF b [symmetric] Some A(1) p] A show ?thesis
      by (auto intro: map_le_trans)
  qed
qed

lemma snap_preorder_stable:
  "children_closed m \<Longrightarrow> m \<subseteq>\<^sub>m m' \<Longrightarrow> h \<in> dom m \<Longrightarrow> snap_preorder fuel m' h = snap_preorder fuel m h"
proof (induction fuel arbitrary: h)
  case 0
  then show ?case by simp
next
  case (Suc fuel)
  from Suc.prems(3) obtain e where e: "m h = Some e" by auto
  with Suc.prems(2) have e': "m' h = Some e" by (metis domI map_le_def)
  from e Suc.prems(1) have sub: "set (entry_children e) \<subseteq> dom m" unfolding children_closed_def by blast
  have eq: "map (snap_preorder fuel m') (entry_children e) = map (snap_preorder fuel m) (entry_children e)"
    using sub Suc.IH [OF Suc.prems(1,2)] by (intro map_cong) auto
  show ?case by (simp only: snap_preorder.simps e e' option.case eq)
qed

lemma snap_preorder_list_stable:
  "children_closed m \<Longrightarrow> m \<subseteq>\<^sub>m m' \<Longrightarrow> set hs \<subseteq> dom m \<Longrightarrow>
     concat (map (snap_preorder fuel m') hs) = concat (map (snap_preorder fuel m) hs)"
  using snap_preorder_stable [of m m']
  by (intro arg_cong [where f = concat] map_cong) auto

lemma highlights_append [simp]: "highlights (xs @ ys) = highlights xs @ highlights ys"
  by (simp add: highlights_def)

lemma element_entries_append [simp]: "element_entries (xs @ ys) = element_entries xs @ element_entries ys"
  by (simp add: element_entries_def)

lemma init_nodeData_cases:
  assumes "init_nodeData e hl = (nd, hl')"
  shows "(highlightIndex nd = Some hl \<and> hl' = hl + 1) \<or> (highlightIndex nd = None \<and> hl' = hl)"
    and "entry_view (nd \<lparr> children := kids \<rparr>) = element_view e"
  using assms by (auto simp: init_nodeData_def Let_def entry_view_def element_view_def split: if_splits)

lemma upt_join: "a \<le> b \<Longrightarrow> b \<le> c \<Longrightarrow> [a..<b] @ [b..<c] = [a..<c]"
  by (metis le_Suc_ex upt_add_eq_append)

lemma segment_nil: "segment depth s s [] []"
  by (simp add: segment_def reads_def highlights_def element_entries_def)

lemma segment_append:
  assumes 1: "segment depth s s1 hs1 es1" and 2: "segment depth s1 s2 hs2 es2"
    and c: "children_closed (DOM_HASH_MAP s1)" and le: "DOM_HASH_MAP s1 \<subseteq>\<^sub>m DOM_HASH_MAP s2"
    and sub: "set hs1 \<subseteq> dom (DOM_HASH_MAP s1)"
    and f1: "frame s s1" and f2: "frame s1 s2"
  shows "segment depth s s2 (hs1 @ hs2) (es1 @ es2)"
proof -
  from 1 obtain L1 where L1: "reads (20 - depth) (DOM_HASH_MAP s1) hs1 L1"
    "distinct (map fst L1)" "set (map fst L1) = dom (DOM_HASH_MAP s1) - dom (DOM_HASH_MAP s)"
    "highlights L1 = [cur_highlightIndex s ..< cur_highlightIndex s1]"
    "map entry_view (element_entries L1) = map element_view es1"
    unfolding segment_def by blast
  from 2 obtain L2 where L2: "reads (20 - depth) (DOM_HASH_MAP s2) hs2 L2"
    "distinct (map fst L2)" "set (map fst L2) = dom (DOM_HASH_MAP s2) - dom (DOM_HASH_MAP s1)"
    "highlights L2 = [cur_highlightIndex s1 ..< cur_highlightIndex s2]"
    "map entry_view (element_entries L2) = map element_view es2"
    unfolding segment_def by blast
  have r: "reads (20 - depth) (DOM_HASH_MAP s2) (hs1 @ hs2) (L1 @ L2)"
    using L1(1) L2(1) snap_preorder_list_stable [OF c le sub]
    by (simp add: reads_def)
  have d: "distinct (map fst (L1 @ L2))"
    using L1(2,3) L2(2,3) by auto
  have st: "set (map fst (L1 @ L2)) = dom (DOM_HASH_MAP s2) - dom (DOM_HASH_MAP s)"
    using L1(3) L2(3) f1 f2 unfolding frame_def by auto
  have "cur_highlightIndex s \<le> cur_highlightIndex s1" "cur_highlightIndex s1 \<le> cur_highlightIndex s2"
    using f1 f2 by (simp_all add: frame_def)
  then have h: "highlights (L1 @ L2) = [cur_highlightIndex s ..< cur_highlightIndex s2]"
    using L1(4) L2(4) by (simp add: upt_join)
  have v: "map entry_view (element_entries (L1 @ L2)) = map element_view (es1 @ es2)"
    using L1(5) L2(5) by simp
  from r d st h v show ?thesis unfolding segment_def by blast
qed

lemma segment_text:
  assumes "state_ok s"
  shows "segment depth s (s \<lparr> ID_current := ID_current s + 1,
                 DOM_HASH_MAP := (DOM_HASH_MAP s)(text_handle (ID_current s) \<mapsto> TEXT_NODE t pt) \<rparr>)
           [text_handle (ID_current s)] []"
proof -
  let ?id = "text_handle (ID_current s)"
  let ?m = "(DOM_HASH_MAP s)(?id \<mapsto> TEXT_NODE t pt)"
  let ?L = "[(?id, TEXT_NODE t pt)]"
  from assms have fresh: "?id \<notin> dom (DOM_HASH_MAP s)"
    by (simp add: state_ok_def keys_below_fresh_text)
  have "reads (20 - depth) ?m [?id] ?L"
    unfolding reads_def
  proof (intro allI impI)
    fix fuel :: nat assume "20 - depth < fuel"
    then obtain f where "fuel = Suc f" by (cases fuel) auto
    then show "concat (map (snap_preorder fuel ?m) [?id]) = ?L"
      by (simp add: entry_children_def)
  qed
  moreover have "set (map fst ?L) = dom ?m - dom (DOM_HASH_MAP s)"
    using fresh by auto
  ultimately show ?thesis
    unfolding segment_def
    by (intro exI [of _ ?L]) (simp add: highlights_def entry_highlight_def element_entries_def)
qed

lemma segment_element:
  assumes wf2: "state_ok s2"
    and kids: "set kids \<subseteq> dom (DOM_HASH_MAP s2)"
    and nd: "init_nodeData node (cur_highlightIndex s) = (nodeData, hl)"
    and f12: "frame (s \<lparr> cur_highlightIndex := hl \<rparr>) s2"
    and seg: "segment (depth + 1) (s \<lparr> cur_highlightIndex := hl \<rparr>) s2 kids es"
    and dk: "depth < 20 \<or> kids = []"
  shows "segment depth s (store_element node nodeData kids s2) [element_handle (ID_current s2)] (node # es)"
proof -
  let ?id = "element_handle (ID_current s2)"
  let ?E = "ELEMENT (nodeData \<lparr> children := kids \<rparr>)"
  let ?m = "(DOM_HASH_MAP s2)(?id \<mapsto> ?E)"
  let ?s' = "store_element node nodeData kids s2"
  have m: "DOM_HASH_MAP ?s' = ?m" and h': "cur_highlightIndex ?s' = cur_highlightIndex s2"
    by (simp_all add: store_element_def Let_def)
  from wf2 have fresh: "?id \<notin> dom (DOM_HASH_MAP s2)"
    by (simp add: state_ok_def keys_below_fresh_element)
  then have le: "DOM_HASH_MAP s2 \<subseteq>\<^sub>m ?m" by (auto simp: map_le_def)
  from wf2 have c2: "children_closed (DOM_HASH_MAP s2)" by (simp add: state_ok_def)
  from seg obtain L2 where L2: "reads (20 - (depth + 1)) (DOM_HASH_MAP s2) kids L2"
    "distinct (map fst L2)" "set (map fst L2) = dom (DOM_HASH_MAP s2) - dom (DOM_HASH_MAP s)"
    "highlights L2 = [hl ..< cur_highlightIndex s2]"
    "map entry_view (element_entries L2) = map element_view es"
    unfolding segment_def by auto
  let ?L = "(?id, ?E) # L2"
  have "reads (20 - depth) ?m [?id] ?L"
    unfolding reads_def
  proof (intro allI impI)
    fix fuel :: nat assume fu: "20 - depth < fuel"
    then obtain f where f: "fuel = Suc f" by (cases fuel) auto
    have "concat (map (snap_preorder f ?m) kids) = concat (map (snap_preorder f (DOM_HASH_MAP s2)) kids)"
      by (rule snap_preorder_list_stable [OF c2 le kids])
    also have "\<dots> = L2"
    proof (cases "kids = []")
      case True
      with L2(1) show ?thesis by (auto simp: reads_def)
    next
      case False
      with dk have "depth < 20" by simp
      with fu f have "20 - (depth + 1) < f" by simp
      with L2(1) show ?thesis by (simp add: reads_def)
    qed
    finally show "concat (map (snap_preorder fuel ?m) [?id]) = ?L"
      by (simp add: f entry_children_def)
  qed
  moreover have "distinct (map fst ?L)"
    using L2(2,3) fresh by auto
  moreover have "set (map fst ?L) = dom ?m - dom (DOM_HASH_MAP s)"
    using L2(3) fresh f12 unfolding frame_def by auto
  moreover have "highlights ?L = [cur_highlightIndex s ..< cur_highlightIndex s2]"
  proof -
    from f12 have le2: "hl \<le> cur_highlightIndex s2" by (simp add: frame_def)
    from init_nodeData_cases(1) [OF nd] show ?thesis
    proof
      assume "highlightIndex nodeData = Some (cur_highlightIndex s) \<and> hl = cur_highlightIndex s + 1"
      with le2 L2(4) show ?thesis
        by (simp add: highlights_def entry_highlight_def upt_conv_Cons)
    next
      assume "highlightIndex nodeData = None \<and> hl = cur_highlightIndex s"
      with L2(4) show ?thesis
        by (simp add: highlights_def entry_highlight_def)
    qed
  qed
  moreover have "map entry_view (element_entries ?L) = map element_view (node # es)"
    using L2(5) init_nodeData_cases(2) [OF nd, of kids]
    by (simp add: element_entries_def)
  ultimately show ?thesis
    unfolding segment_def m h' by blast
qed

lemma build_segment:
  "state_ok s \<Longrightarrow> buildDomTree p n d s = (r, s') \<Longrightarrow>
     (case r of None \<Rightarrow> kept d n = [] | Some h \<Rightarrow> segment d s s' [h] (kept d n))"
  "state_ok s \<Longrightarrow> processChildren p cs d acc s = (res, s') \<Longrightarrow>
     (\<exists>new. res = acc @ new \<and> set new \<subseteq> dom (DOM_HASH_MAP s') \<and> segment d s s' new (kept_list d cs))"
proof (induction p n d s and p cs d acc s arbitrary: r s' and res s' rule: buildDomTree_processChildren.induct)
  case (1 parent depth s)
  then show ?case by simp
next
  case (2 parent textContent depth s)
  show ?case
  proof (cases "trim textContent = []")
    case True
    with "2.prems" show ?thesis by auto
  next
    case False
    with "2.prems"(2) have "r = Some (text_handle (ID_current s))"
      "s' = s \<lparr> ID_current := ID_current s + 1,
                 DOM_HASH_MAP := (DOM_HASH_MAP s)(text_handle (ID_current s) \<mapsto> TEXT_NODE (trim textContent)
                                (map_option (\<lambda>p. toLowerCase (tagName p)) parent)) \<rparr>"
      by (auto simp: Let_def)
    with segment_text [OF "2.prems"(1)] show ?thesis by simp
  qed
next
  case (3 parent node childNodes depth s)
  show ?case
  proof (cases "skipped_element node")
    case True
    with "3.prems" show ?thesis by (simp add: buildDomTree_skip del: buildDomTree.simps)
  next
    case False
    obtain nodeData hl where nd: "init_nodeData node (cur_highlightIndex s) = (nodeData, hl)"
      by (cases "init_nodeData node (cur_highlightIndex s)")
    define s1 where "s1 = s \<lparr> cur_highlightIndex := hl \<rparr>"
    obtain kids s2 where k: "(if depth < 20
                           then processChildren (Some node) childNodes (depth + 1) [] s1
                           else ([], s1)) = (kids, s2)"
      by (cases "(if depth < 20
                           then processChildren (Some node) childNodes (depth + 1) [] s1
                           else ([], s1))")
    have ch: "children nodeData = []" using init_nodeData_children [of node "cur_highlightIndex s"] nd by simp
    from False have a: "node_id node \<noteq> ''playwright-highlight-container''"
      and b: "toLowerCase (tagName node) \<notin> {''script'', ''style'', ''noscript''}"
      by (auto simp: skipped_element_def)
    have wf1: "state_ok s1" using "3.prems"(1) by (simp add: s1_def)
    let ?es = "if depth < 20 then kept_list (depth + 1) childNodes else []"
    have IH: "state_ok s2 \<and> frame s1 s2 \<and> set kids \<subseteq> dom (DOM_HASH_MAP s2) \<and>
               segment (depth + 1) s1 s2 kids ?es \<and> (depth < 20 \<or> kids = [])"
    proof (cases "depth < 20")
      case True
      with k ch have p: "processChildren (Some node) childNodes (depth + 1) (children nodeData) s1 = (kids, s2)" by simp
      from "3.IH" [OF a b nd [symmetric] refl s1_def True wf1 p] build_dom_mono(2) [OF p]
        build_state_ok(2) [OF wf1 p] ch True
      show ?thesis by auto
    next
      case False
      with k wf1 show ?thesis by (auto simp: segment_nil)
    qed
    from "3.prems" buildDomTree_keep [OF False nd k [unfolded s1_def]]
    have r: "r = Some (element_handle (ID_current s2))" and s': "s' = store_element node nodeData kids s2"
      by simp_all
    from IH have "segment depth s s' [element_handle (ID_current s2)] (node # ?es)"
      unfolding s' s1_def by (intro segment_element [OF _ _ nd]) simp_all
    with r False show ?thesis by simp
  qed
next
  case (4 parent depth acc s)
  then show ?case by (simp add: segment_nil)
next
  case (5 parent child rest depth acc s)
  obtain r1 s1 where b: "buildDomTree parent child depth s = (r1, s1)"
    by (cases "buildDomTree parent child depth s")
  note A = "5.IH"(1) [OF "5.prems"(1) b]
  from build_state_ok(1) [OF "5.prems"(1) b] have wf1: "state_ok s1" by simp
  from build_dom_mono(1) [OF b] have f1: "frame s s1" and n1: "r1 = None \<Longrightarrow> s1 = s"
    and d1: "\<And>h. r1 = Some h \<Longrightarrow> h \<in> dom (DOM_HASH_MAP s1)" by simp_all
  show ?case
  proof (cases r1)
    case None
    with b "5.prems" have p: "processChildren parent rest depth acc s1 = (res, s')" by simp
    from "5.IH"(2) [OF b [symmetric] None wf1 p] A None n1 show ?thesis
      by auto
  next
    case (Some h)
    with b "5.prems" have p: "processChildren parent rest depth (acc @ [h]) s1 = (res, s')" by simp
    from "5.IH"(3) [OF b [symmetric] Some wf1 p] obtain new where
      new: "res = (acc @ [h]) @ new" "set new \<subseteq> dom (DOM_HASH_MAP s')"
           "segment depth s1 s' new (kept_list depth rest)"
      by blast
    from A Some have seg1: "segment depth s s1 [h] (kept depth child)" by simp
    from build_state_ok(2) [OF wf1 p] have le: "DOM_HASH_MAP s1 \<subseteq>\<^sub>m DOM_HASH_MAP s'" by simp
    from build_dom_mono(2) [OF p] have f2: "frame s1 s'" by simp
    from wf1 have c1: "children_closed (DOM_HASH_MAP s1)" by (simp add: state_ok_def)
    have "segment depth s s' ([h] @ new) (kept depth child @ kept_list depth rest)"
      using d1 [OF Some] by (intro segment_append [OF seg1 new(3) c1 le _ f1 f2]) simp
    moreover have "h \<in> dom (DOM_HASH_MAP s')"
      using d1 [OF Some] f2 unfolding frame_def by blast
    ultimately show ?thesis using new(1,2)
      by (intro exI [of _ "h # new"]) simp
  qed
qed

lemma initial_state_ok: "state_ok (initial_state a)"
  by (simp add: state_ok_def keys_below_def children_closed_def initial_state_def)

lemma snapshot_no_body:
  "buildAdvancedDomSnapshot a None =
     \<lparr> rootId = Some ''root_0'',
       snapshot_map = [''root_0'' \<mapsto> ERROR ''No document.body available''],
       perfMetrics = (if debugMode a
                      then Some \<lparr> totalNodes = 0, processedNodes = 0, skippedNodes = 0 \<rparr>
                      else None) \<rparr>"
  by (simp add: buildAdvancedDomSnapshot_def initial_state_def Let_def)

lemma snapshot_body:
  assumes "buildDomTree None body 0 (initial_state a) = (r, s')"
  shows "buildAdvancedDomSnapshot a (Some body) =
           \<lparr> rootId = r, snapshot_map = DOM_HASH_MAP s',
             perfMetrics = (if debugMode a then PERF_METRICS s' else None) \<rparr>"
  using assms by (simp add: buildAdvancedDomSnapshot_def Let_def)

lemma snapshot_entries_ok:
  "children_closed (snapshot_map (buildAdvancedDomSnapshot a doc)) \<and>
   (\<forall>h e. snapshot_map (buildAdvancedDomSnapshot a doc) h = Some e \<longrightarrow> entry_ok e)"
proof (cases doc)
  case None
  then show ?thesis
    by (simp add: snapshot_no_body children_closed_def entry_children_def entry_ok_def)
next
  case (Some body)
  obtain r s' where b: "buildDomTree None body 0 (initial_state a) = (r, s')"
    by (cases "buildDomTree None body 0 (initial_state a)")
  from build_state_ok(1) [OF initial_state_ok b] have "state_ok s'" by simp
  then show ?thesis
    unfolding Some snapshot_body [OF b] by (simp add: state_ok_def)
qed

lemma perf_metrics_never_updated:
  "perfMetrics (buildAdvancedDomSnapshot a doc) =
     (if debugMode a then Some \<lparr> totalNodes = 0, processedNodes = 0, skippedNodes = 0 \<rparr> else None)"
proof (cases doc)
  case None
  then show ?thesis by (simp add: snapshot_no_body)
next
  case (Some body)
  obtain r s' where b: "buildDomTree None body 0 (initial_state a) = (r, s')"
    by (cases "buildDomTree None body 0 (initial_state a)")
  from build_dom_mono(1) [OF b] have "PERF_METRICS s' = PERF_METRICS (initial_state a)"
    by (simp add: frame_def)
  then show ?thesis
    unfolding Some snapshot_body [OF b] by (simp add: initial_state_def)
qed

lemma snap_preorder_entries:
  "(h, e) \<in> set (snap_preorder fuel m r) \<Longrightarrow> m h = Some e"
proof (induction fuel arbitrary: r)
  case 0
  then show ?case by simp
next
  case (Suc fuel)
  then show ?case by (auto split: option.splits)
qed

lemma snapshot_preorder:
  assumes "rootId (buildAdvancedDomSnapshot a doc) = Some r"
  shows "\<exists>L. (\<forall>fuel > 20. snap_preorder fuel (snapshot_map (buildAdvancedDomSnapshot a doc)) r = L) \<and>
             distinct (map fst L) \<and>
             set (map fst L) = dom (snapshot_map (buildAdvancedDomSnapshot a doc)) \<and>
             highlights L = [0 ..< length (highlights L)] \<and>
             (\<forall>body. doc = Some body \<longrightarrow>
                map entry_view (element_entries L) = map element_view (kept 0 body))"
proof (cases doc)
  case None
  let ?L = "[(''root_0'', ERROR ''No document.body available'')]"
  from assms None have r: "r = ''root_0''" by (simp add: snapshot_no_body)
  have "\<forall>fuel > 20. snap_preorder fuel [''root_0'' \<mapsto> ERROR ''No document.body available''] ''root_0'' = ?L"
  proof (intro allI impI)
    fix fuel :: nat assume "20 < fuel"
    then obtain f where "fuel = Suc f" by (cases fuel) auto
    then show "snap_preorder fuel [''root_0'' \<mapsto> ERROR ''No document.body available''] ''root_0'' = ?L"
      by (simp add: entry_children_def)
  qed
  then show ?thesis
    unfolding None snapshot_no_body r
    by (intro exI [of _ ?L]) (simp add: highlights_def entry_highlight_def)
next
  case (Some body)
  obtain r' s' where b: "buildDomTree None body 0 (initial_state a) = (r', s')"
    by (cases "buildDomTree None body 0 (initial_state a)")
  from assms have r': "r' = Some r" unfolding Some snapshot_body [OF b] by simp
  from build_segment(1) [OF initial_state_ok b] r'
  have "segment 0 (initial_state a) s' [r] (kept 0 body)" by simp
  then obtain L where L: "reads 20 (DOM_HASH_MAP s') [r] L" "distinct (map fst L)"
    "set (map fst L) = dom (DOM_HASH_MAP s') - dom (DOM_HASH_MAP (initial_state a))"
    "highlights L = [cur_highlightIndex (initial_state a) ..< cur_highlightIndex s']"
    "map entry_view (element_entries L) = map element_view (kept 0 body)"
    unfolding segment_def by auto
  from L(4) have "highlights L = [0 ..< cur_highlightIndex s']" by (simp add: initial_state_def)
  then have h: "highlights L = [0 ..< length (highlights L)]" by simp
  from L(1) have rd: "\<forall>fuel > 20. snap_preorder fuel (DOM_HASH_MAP s') r = L"
    by (simp add: reads_def)
  from L(3) have st: "set (map fst L) = dom (DOM_HASH_MAP s')" by (simp add: initial_state_def)
  show ?thesis
    unfolding Some snapshot_body [OF b]
    using rd L(2) st h L(5) by (intro exI [of _ L]) simp
qed

lemma snapshot_no_root:
  assumes "rootId (buildAdvancedDomSnapshot a doc) = None"
  shows "snapshot_map (buildAdvancedDomSnapshot a doc) = Map.empty"
proof (cases doc)
  case None
  with assms show ?thesis by (simp add: snapshot_no_body)
next
  case (Some body)
  obtain r' s' where b: "buildDomTree None body 0 (initial_state a) = (r', s')"
    by (cases "buildDomTree None body 0 (initial_state a)")
  from assms have "r' = None" unfolding Some snapshot_body [OF b] by simp
  with build_dom_mono(1) [OF b] have "s' = initial_state a" by simp
  then show ?thesis unfolding Some snapshot_body [OF b] by (simp add: initial_state_def)
qed

lemma prune_same:
  "buildDomTree p (prune d n) d s = buildDomTree p n d s"
  "processChildren p (map (prune d) cs) d acc s = processChildren p cs d acc s"
proof (induction p n d s and p cs d acc s rule: buildDomTree_processChildren.induct)
  case (1 parent depth s)
  then show ?case by simp
next
  case (2 parent textContent depth s)
  then show ?case by simp
next
  case (3 parent node childNodes depth s)
  show ?case
  proof (cases "skipped_element node")
    case True
    then show ?thesis by (simp add: buildDomTree_skip del: buildDomTree.simps)
  next
    case False
    then have a: "node_id node \<noteq> ''playwright-highlight-container''"
      and b: "toLowerCase (tagName node) \<notin> {''script'', ''style'', ''noscript''}"
      by (auto simp: skipped_element_def)
    show ?thesis
    proof (cases "depth < 20")
      case True
      obtain nodeData hl where nd: "init_nodeData node (cur_highlightIndex s) = (nodeData, hl)"
        by (cases "init_nodeData node (cur_highlightIndex s)")
      from "3.IH" [OF a b nd [symmetric] refl refl True]
      have "processChildren (Some node) (map (prune (depth + 1)) childNodes) (depth + 1)
              (children nodeData) (s \<lparr> cur_highlightIndex := hl \<rparr>) =
            processChildren (Some node) childNodes (depth + 1)
              (children nodeData) (s \<lparr> cur_highlightIndex := hl \<rparr>)" .
      with True nd show ?thesis by (simp add: Let_def)
    next
      case False
      then show ?thesis by (simp add: Let_def)
    qed
  qed
next
  case (4 parent depth acc s)
  then show ?case by simp
next
  case (5 parent child rest depth acc s)
  obtain r1 s1 where b: "buildDomTree parent child depth s = (r1, s1)"
    by (cases "buildDomTree parent child depth s")
  show ?case
  proof (cases r1)
    case None
    from "5.IH"(2) [OF b [symmetric] None] "5.IH"(1) b None show ?thesis by simp
  next
    case (Some h)
    from "5.IH"(3) [OF b [symmetric] Some] "5.IH"(1) b Some show ?thesis by simp
  qed
qed

lemma snap_preorder_numeral:
  "snap_preorder (numeral k) m h =
     (case m h of
        None \<Rightarrow> []
      | Some e \<Rightarrow> (h, e) # concat (map (snap_preorder (pred_numeral k) m) (entry_children e)))"
  by (simp add: numeral_eq_Suc)

lemma init_nodeData_invisible:
  "\<not> isElementVisible e \<Longrightarrow>
     init_nodeData e hl =
       (\<lparr> nd_tagName = toLowerCase (tagName e), nd_attributes = getElementAttributes e,
          children = [], isVisible = False, isInteractive = None, highlightIndex = None \<rparr>, hl)"
  by (simp add: init_nodeData_def Let_def)

lemma init_nodeData_visible:
  "isElementVisible e \<Longrightarrow>
     init_nodeData e hl =
       (\<lparr> nd_tagName = toLowerCase (tagName e), nd_attributes = getElementAttributes e,
          children = [], isVisible = True, isInteractive = Some (isInteractiveElement e),
          highlightIndex = (if isInteractiveElement e then Some hl else None) \<rparr>,
        if isInteractiveElement e then hl + 1 else hl)"
  by (simp add: init_nodeData_def Let_def)

lemma highlights_element_entries:
  "highlights L =
     concat (map (\<lambda>d. case highlightIndex d of None \<Rightarrow> [] | Some i \<Rightarrow> [i]) (element_entries L))"
proof (induction L)
  case Nil
  then show ?case by (simp add: highlights_def element_entries_def)
next
  case (Cons x L)
  obtain h e where x: "x = (h, e)" by (cases x)
  from Cons show ?case
    by (cases e) (simp_all add: x highlights_def element_entries_def entry_highlight_def)
qed

lemma upt_eq_Cons_start:
  assumes "i # rest = [n ..< n + k]"
  shows "i = n \<and> (\<exists>k'. rest = [Suc n ..< Suc n + k'])"
proof -
  from assms have "k \<noteq> 0" by (cases k) auto
  then obtain k' where k: "k = Suc k'" by (cases k) auto
  from assms have "i # rest = n # [Suc n ..< Suc n + k']" unfolding k by (simp add: upt_rec)
  then show ?thesis by auto
qed

lemma numbered_entries:
  "(\<And>d. d \<in> set ds \<Longrightarrow> entry_ok (ELEMENT d)) \<Longrightarrow>
   map entry_view ds = map element_view es \<Longrightarrow>
   concat (map (\<lambda>d. case highlightIndex d of None \<Rightarrow> [] | Some i \<Rightarrow> [i]) ds) = [n ..< n + k] \<Longrightarrow>
   map numbered_view ds = numbered n es"
proof (induction ds arbitrary: es n k)
  case Nil
  then show ?case by simp
next
  case (Cons d ds)
  from Cons.prems(2) obtain e es' where es: "es = e # es'"
    and v: "entry_view d = element_view e" and rest: "map entry_view ds = map element_view es'"
    by (cases es) auto
  from Cons.prems(1) have ok: "entry_ok (ELEMENT d)" and oks: "\<And>d'. d' \<in> set ds \<Longrightarrow> entry_ok (ELEMENT d')"
    by simp_all
  from v have vis: "isVisible d = isElementVisible e"
    and int: "isInteractive d = (if isElementVisible e then Some (isInteractiveElement e) else None)"
    by (simp_all add: entry_view_def element_view_def)
  from ok vis int have hl: "highlightIndex d \<noteq> None \<longleftrightarrow> isElementVisible e \<and> isInteractiveElement e"
    by (auto simp: entry_ok_def)
  show ?case
  proof (cases "highlightIndex d")
    case None
    with Cons.prems(3) have "concat (map (\<lambda>d. case highlightIndex d of None \<Rightarrow> [] | Some i \<Rightarrow> [i]) ds) = [n ..< n + k]"
      by simp
    from Cons.IH [OF oks rest this] None hl v show ?thesis
      by (simp add: es numbered_view_def)
  next
    case (Some i)
    with Cons.prems(3) have "i # concat (map (\<lambda>d. case highlightIndex d of None \<Rightarrow> [] | Some i \<Rightarrow> [i]) ds) = [n ..< n + k]"
      by simp
    from upt_eq_Cons_start [OF this] obtain k' where i: "i = n"
      and c: "concat (map (\<lambda>d. case highlightIndex d of None \<Rightarrow> [] | Some i \<Rightarrow> [i]) ds) = [Suc n ..< Suc n + k']"
      by blast
    from Cons.IH [OF oks rest c] Some hl v i show ?thesis
      by (simp add: es numbered_view_def)
  qed
qed

lemma snapshot_numbered:
  assumes r: "rootId (buildAdvancedDomSnapshot a (Some body)) = Some r" and f: "20 < fuel"
  shows "map numbered_view
           (element_entries (snap_preorder fuel (snapshot_map (buildAdvancedDomSnapshot a (Some body))) r)) =
         numbered 0 (kept 0 body)"
proof -
  let ?m = "snapshot_map (buildAdvancedDomSnapshot a (Some body))"
  let ?L = "snap_preorder fuel ?m r"
  from snapshot_preorder [OF r] obtain L where
    L: "\<forall>fuel > 20. snap_preorder fuel ?m r = L"
       "highlights L = [0 ..< length (highlights L)]"
       "\<forall>body'. Some body = Some body' \<longrightarrow> map entry_view (element_entries L) = map element_view (kept 0 body')"
    by blast
  from L(1) f have e: "?L = L" by blast
  have ok: "\<And>d. d \<in> set (element_entries ?L) \<Longrightarrow> entry_ok (ELEMENT d)"
  proof -
    fix d assume "d \<in> set (element_entries ?L)"
    then obtain h where "(h, ELEMENT d) \<in> set ?L"
      by (auto simp: element_entries_def split: map_entry.splits)
    then have "?m h = Some (ELEMENT d)" by (rule snap_preorder_entries)
    with snapshot_entries_ok [of a "Some body"] show "entry_ok (ELEMENT d)" by blast
  qed
  from L(3) have v: "map entry_view (element_entries ?L) = map element_view (kept 0 body)"
    unfolding e by blast
  from L(2) have "concat (map (\<lambda>d. case highlightIndex d of None \<Rightarrow> [] | Some i \<Rightarrow> [i]) (element_entries ?L)) =
      [0 ..< 0 + length (highlights ?L)]"
    unfolding e highlights_element_entries [symmetric] by simp
  from numbered_entries [OF ok v this] show ?thesis by simp
qed

lemma snapshot_root_present:
  assumes "rootId (buildAdvancedDomSnapshot a (Some body)) = None"
  shows "kept 0 body = []"
proof -
  obtain r' s' where b: "buildDomTree None body 0 (initial_state a) = (r', s')"
    by (cases "buildDomTree None body 0 (initial_state a)")
  from assms have "r' = None" unfolding snapshot_body [OF b] by simp
  with build_segment(1) [OF initial_state_ok b] show ?thesis by simp
qed

subsection \<open>Evaluation of the snapshot builder on the concrete documents\<close>

lemma lower_tags:
  "toLowerCase ''BUTTON'' = ''button''" "toLowerCase ''BODY'' = ''body''"
  "toLowerCase ''A'' = ''a''" "toLowerCase ''SCRIPT'' = ''script''" "toLowerCase ''DIV'' = ''div''"
  by (simp_all add: toLowerCase_def toLowerCase_char_def)

lemma small_handles:
  "element_handle 0 = ''element_0''" "element_handle (Suc 0) = ''element_1''"
  "element_handle (Suc (Suc 0)) = ''element_2''"
  "element_handle (Suc (Suc (Suc 0))) = ''element_3''"
  "element_handle (Suc (Suc (Suc (Suc 0)))) = ''element_4''"
  "text_handle (Suc (Suc 0)) = ''text_2''"
  by (simp_all add: element_handle_def text_handle_def show_nat.simps digit_char_def)

lemma trim_samples: "trim ''  '' = []" "trim '' OK '' = ''OK''"
  by (simp_all add: trim_def is_white_def)

lemma example_elements:
  "node_id (visible_el t) = []" "tagName (visible_el t) = t"
  "node_id (hidden_el t) = []" "tagName (hidden_el t) = t"
  by (simp_all add: visible_el_def hidden_el_def)

lemma example_visibility:
  "isElementVisible (visible_el t)" "\<not> isElementVisible (hidden_el t)"
  "style_display (hidden_el t) = ''none''"
  by (simp_all add: visible_el_def hidden_el_def isElementVisible_def)

lemma example_nodeData:
  "init_nodeData (visible_el ''A'') hl =
     (\<lparr> nd_tagName = ''a'', nd_attributes = Map.empty, children = [],
        isVisible = True, isInteractive = Some True, highlightIndex = Some hl \<rparr>, hl + 1)"
  "init_nodeData (visible_el ''BUTTON'') hl =
     (\<lparr> nd_tagName = ''button'', nd_attributes = Map.empty, children = [],
        isVisible = True, isInteractive = Some True, highlightIndex = Some hl \<rparr>, hl + 1)"
  "init_nodeData (hidden_el ''BUTTON'') hl =
     (\<lparr> nd_tagName = ''button'', nd_attributes = Map.empty, children = [],
        isVisible = False, isInteractive = None, highlightIndex = None \<rparr>, hl)"
  "init_nodeData (visible_el ''BODY'') hl =
     (\<lparr> nd_tagName = ''body'', nd_attributes = Map.empty, children = [],
        isVisible = True, isInteractive = Some False, highlightIndex = None \<rparr>, hl)"
  "init_nodeData (visible_el ''DIV'') hl =
     (\<lparr> nd_tagName = ''div'', nd_attributes = Map.empty, children = [],
        isVisible = True, isInteractive = Some False, highlightIndex = None \<rparr>, hl)"
  by (simp_all add: init_nodeData_def Let_def lower_tags isElementVisible_def isInteractiveElement_def
        interactiveElements_def getElementAttributes_def getAttributeNames_def getAttribute_def
        visible_el_def hidden_el_def)

lemmas eval_dom = example_nodeData small_handles trim_samples lower_tags example_elements Let_def

lemma sample_snapshot:
  "buildAdvancedDomSnapshot default_args (Some sample_body) =
     \<lparr> rootId = Some ''element_4'',
       snapshot_map =
         [''element_0'' \<mapsto> ELEMENT \<lparr> nd_tagName = ''a'', nd_attributes = Map.empty, children = [],
              isVisible = True, isInteractive = Some True, highlightIndex = Some 0 \<rparr>,
          ''element_1'' \<mapsto> ELEMENT \<lparr> nd_tagName = ''button'', nd_attributes = Map.empty, children = [],
              isVisible = False, isInteractive = None, highlightIndex = None \<rparr>,
          ''text_2'' \<mapsto> TEXT_NODE ''OK'' (Some ''button''),
          ''element_3'' \<mapsto> ELEMENT \<lparr> nd_tagName = ''button'', nd_attributes = Map.empty,
              children = [''text_2''],
              isVisible = True, isInteractive = Some True, highlightIndex = Some 1 \<rparr>,
          ''element_4'' \<mapsto> ELEMENT \<lparr> nd_tagName = ''body'', nd_attributes = Map.empty,
              children = [''element_0'', ''element_1'', ''element_3''],
              isVisible = True, isInteractive = Some False, highlightIndex = None \<rparr>],
       perfMetrics = None \<rparr>"
  unfolding sample_body_def buildAdvancedDomSnapshot_def initial_state_def default_args_def
  by (simp add: eval_dom)

lemma empty_body_snapshot:
  "buildAdvancedDomSnapshot debug_args (Some empty_body) =
     \<lparr> rootId = Some ''element_0'',
       snapshot_map =
         [''element_0'' \<mapsto> ELEMENT \<lparr> nd_tagName = ''body'', nd_attributes = Map.empty, children = [],
              isVisible = True, isInteractive = Some False, highlightIndex = None \<rparr>],
       perfMetrics = Some \<lparr> totalNodes = 0, processedNodes = 0, skippedNodes = 0 \<rparr> \<rparr>"
  unfolding empty_body_def buildAdvancedDomSnapshot_def initial_state_def debug_args_def default_args_def
  by (simp add: eval_dom)

lemma example_interactive:
  "isInteractiveElement (visible_el ''A'')" "isInteractiveElement (visible_el ''BUTTON'')"
  "\<not> isInteractiveElement (visible_el ''BODY'')"
  by (simp_all add: isInteractiveElement_def interactiveElements_def getAttribute_def lower_tags
        visible_el_def)

lemma example_not_skipped:
  "\<not> skipped_element (visible_el ''A'')" "\<not> skipped_element (visible_el ''BUTTON'')"
  "\<not> skipped_element (visible_el ''BODY'')" "\<not> skipped_element (hidden_el ''BUTTON'')"
  "skipped_element (visible_el ''SCRIPT'')"
  by (simp_all add: skipped_element_def lower_tags example_elements)

lemma sample_kept:
  "numbered 0 (kept 0 sample_body) =
     [((''body'', True, Some False), None), ((''a'', True, Some True), Some 0),
      ((''button'', False, None), None), ((''button'', True, Some True), Some 1)]"
  by (simp add: sample_body_def example_not_skipped element_view_def lower_tags example_elements
        example_visibility example_interactive)

section \<open>Claims about the snapshot builder\<close>

text \<open>
  C1. For every document passed to \<open>buildAdvancedDomSnapshot\<close>, every handle in the
  \<open>children\<close> array of an element record is a key of the returned map. The loop over the
  child nodes appends a handle only after the child has been stored under it, and appends
  nothing for a child that \<open>buildDomTree\<close> filters out: the reserved container, a
  \<open>script\<close>, \<open>style\<close> or \<open>noscript\<close> element, a text node that is empty after trimming, a
  node that is neither element nor text, and, from depth 20 on, every child.
\<close>

theorem children_handles_in_map:
  "(\<forall>h d c. snapshot_map (buildAdvancedDomSnapshot a doc) h = Some (ELEMENT d) \<and> c \<in> set (children d)
      \<longrightarrow> c \<in> dom (snapshot_map (buildAdvancedDomSnapshot a doc))) \<and>
   (\<forall>childId s'. buildDomTree p child depth s = (Some childId, s') \<longrightarrow>
      childId \<in> dom (DOM_HASH_MAP s') \<and>
      processChildren p (child # rest) depth acc s = processChildren p rest depth (acc @ [childId]) s') \<and>
   (\<forall>s'. buildDomTree p child depth s = (None, s') \<longrightarrow>
      s' = s \<and> processChildren p (child # rest) depth acc s = processChildren p rest depth acc s) \<and>
   (node_id e = ''playwright-highlight-container'' \<or>
    toLowerCase (tagName e) \<in> {''script'', ''style'', ''noscript''}
      \<longrightarrow> buildDomTree p (ElementNode e cs) depth s = (None, s)) \<and>
   (trim t = [] \<longrightarrow> buildDomTree p (TextNode t) depth s = (None, s)) \<and>
   buildDomTree p OtherNode depth s = (None, s) \<and>
   (20 \<le> depth \<longrightarrow>
      buildDomTree p (ElementNode e cs) depth s = buildDomTree p (ElementNode e []) depth s)"
proof (intro conjI allI impI)
  fix h d c
  assume "snapshot_map (buildAdvancedDomSnapshot a doc) h = Some (ELEMENT d) \<and> c \<in> set (children d)"
  with snapshot_entries_ok [of a doc]
  show "c \<in> dom (snapshot_map (buildAdvancedDomSnapshot a doc))"
    unfolding children_closed_def by (fastforce simp: entry_children_def)
next
  fix childId s'
  assume b: "buildDomTree p child depth s = (Some childId, s')"
  from build_dom_mono(1) [OF b] show "childId \<in> dom (DOM_HASH_MAP s')" by simp
  from b show "processChildren p (child # rest) depth acc s =
      processChildren p rest depth (acc @ [childId]) s'" by simp
next
  fix s'
  assume b: "buildDomTree p child depth s = (None, s')"
  from build_dom_mono(1) [OF b] show s: "s' = s" by simp
  from b s show "processChildren p (child # rest) depth acc s = processChildren p rest depth acc s"
    by simp
next
  assume "node_id e = ''playwright-highlight-container'' \<or>
    toLowerCase (tagName e) \<in> {''script'', ''style'', ''noscript''}"
  then show "buildDomTree p (ElementNode e cs) depth s = (None, s)"
    by (intro buildDomTree_skip) (simp add: skipped_element_def)
next
  assume "trim t = []"
  then show "buildDomTree p (TextNode t) depth s = (None, s)" by simp
next
  show "buildDomTree p OtherNode depth s = (None, s)" by simp
next
  assume "20 \<le> depth"
  then show "buildDomTree p (ElementNode e cs) depth s = buildDomTree p (ElementNode e []) depth s"
    by simp
qed

theorem children_handles_in_map_witness:
  "snapshot_map (buildAdvancedDomSnapshot default_args (Some sample_body)) ''element_4'' =
     Some (ELEMENT \<lparr> nd_tagName = ''body'', nd_attributes = Map.empty,
                     children = [''element_0'', ''element_1'', ''element_3''],
                     isVisible = True, isInteractive = Some False, highlightIndex = None \<rparr>) \<and>
   ''element_3'' \<in> dom (snapshot_map (buildAdvancedDomSnapshot default_args (Some sample_body))) \<and>
   toLowerCase (tagName (visible_el ''SCRIPT'')) \<in> {''script'', ''style'', ''noscript''} \<and>
   buildDomTree None (ElementNode (visible_el ''SCRIPT'') [TextNode ''var x;'']) 1
     (initial_state default_args) = (None, initial_state default_args) \<and>
   trim ''  '' = [] \<and>
   buildDomTree None (TextNode ''  '') 1 (initial_state default_args) = (None, initial_state default_args)"
proof -
  let ?d = "\<lparr> nd_tagName = ''body'', nd_attributes = Map.empty,
                     children = [''element_0'', ''element_1'', ''element_3''],
                     isVisible = True, isInteractive = Some False, highlightIndex = None \<rparr>"
  note T = children_handles_in_map [where a = default_args and doc = "Some sample_body"
      and e = "visible_el ''SCRIPT''" and cs = "[TextNode ''var x;'']" and t = "''  ''"
      and p = None and depth = 1 and s = "initial_state default_args"]
  have h: "snapshot_map (buildAdvancedDomSnapshot default_args (Some sample_body)) ''element_4'' =
      Some (ELEMENT ?d) \<and> ''element_3'' \<in> set (children ?d)"
    by (simp add: sample_snapshot)
  have sc: "node_id (visible_el ''SCRIPT'') = ''playwright-highlight-container'' \<or>
      toLowerCase (tagName (visible_el ''SCRIPT'')) \<in> {''script'', ''style'', ''noscript''}"
    by (simp add: example_elements lower_tags)
  have tr: "trim ''  '' = []" by (simp add: trim_samples)
  from T have 1: "''element_3'' \<in> dom (snapshot_map (buildAdvancedDomSnapshot default_args (Some sample_body)))"
    using h by blast
  from T sc have 2: "buildDomTree None (ElementNode (visible_el ''SCRIPT'') [TextNode ''var x;'']) 1
     (initial_state default_args) = (None, initial_state default_args)" by blast
  from T tr have 3: "buildDomTree None (TextNode ''  '') 1 (initial_state default_args) =
     (None, initial_state default_args)" by blast
  from h 1 2 3 sc tr show ?thesis by (simp add: example_elements lower_tags)
qed

text \<open>
  C2. In every snapshot an element record has a \<open>highlightIndex\<close> exactly when it is
  visible and interactive. Reading the snapshot in pre-order from the root (any fuel above
  20 reads all of it) visits every key of the map once, and the highlight indices met on
  the way are \<open>0, 1, ..., k - 1\<close> in this order; the element records met are, in tag,
  visibility, interactivity and highlight index, the recorded elements of the document in
  document pre-order, numbered from 0 on those that are visible and interactive and on no
  other. The snapshot has a root unless the document records no element at all: with a
  body that is not filtered out there is a root, and without a body the root is the error
  entry. An element that fails the visibility test (\<open>display: none\<close> is one way to fail
  it) gets a record without \<open>isInteractive\<close> and without \<open>highlightIndex\<close>, and leaves the
  highlight counter unchanged, whatever its tag.
\<close>

theorem highlight_indices_dense_in_preorder:
  "(\<forall>h d. snapshot_map (buildAdvancedDomSnapshot a doc) h = Some (ELEMENT d) \<longrightarrow>
      (highlightIndex d \<noteq> None \<longleftrightarrow> isVisible d \<and> isInteractive d = Some True)) \<and>
   (\<forall>r fuel. rootId (buildAdvancedDomSnapshot a doc) = Some r \<and> 20 < fuel \<longrightarrow>
      distinct (map fst (snap_preorder fuel (snapshot_map (buildAdvancedDomSnapshot a doc)) r)) \<and>
      set (map fst (snap_preorder fuel (snapshot_map (buildAdvancedDomSnapshot a doc)) r)) =
        dom (snapshot_map (buildAdvancedDomSnapshot a doc)) \<and>
      (\<forall>(h, e) \<in> set (snap_preorder fuel (snapshot_map (buildAdvancedDomSnapshot a doc)) r).
         snapshot_map (buildAdvancedDomSnapshot a doc) h = Some e) \<and>
      highlights (snap_preorder fuel (snapshot_map (buildAdvancedDomSnapshot a doc)) r) =
        [0 ..< length (highlights (snap_preorder fuel (snapshot_map (buildAdvancedDomSnapshot a doc)) r))] \<and>
      (\<forall>body. doc = Some body \<longrightarrow>
         map entry_view
           (element_entries (snap_preorder fuel (snapshot_map (buildAdvancedDomSnapshot a doc)) r)) =
         map element_view (kept 0 body)) \<and>
      (\<forall>body. doc = Some body \<longrightarrow>
         map numbered_view
           (element_entries (snap_preorder fuel (snapshot_map (buildAdvancedDomSnapshot a doc)) r)) =
         numbered 0 (kept 0 body))) \<and>
   (rootId (buildAdvancedDomSnapshot a doc) = None \<longrightarrow>
      snapshot_map (buildAdvancedDomSnapshot a doc) = Map.empty) \<and>
   (\<forall>body. doc = Some body \<and> rootId (buildAdvancedDomSnapshot a doc) = None \<longrightarrow>
      kept 0 body = []) \<and>
   (\<forall>e cs. doc = Some (ElementNode e cs) \<and> \<not> skipped_element e \<longrightarrow>
      rootId (buildAdvancedDomSnapshot a doc) \<noteq> None) \<and>
   (doc = None \<longrightarrow> rootId (buildAdvancedDomSnapshot a doc) = Some ''root_0'') \<and>
   (\<forall>e hl. \<not> isElementVisible e \<longrightarrow>
      init_nodeData e hl =
        (\<lparr> nd_tagName = toLowerCase (tagName e), nd_attributes = getElementAttributes e,
           children = [], isVisible = False, isInteractive = None, highlightIndex = None \<rparr>, hl)) \<and>
   (\<forall>e. style_display e = ''none'' \<longrightarrow> \<not> isElementVisible e)"
proof (intro conjI allI impI)
  fix h d
  assume "snapshot_map (buildAdvancedDomSnapshot a doc) h = Some (ELEMENT d)"
  with snapshot_entries_ok [of a doc] have "entry_ok (ELEMENT d)" by blast
  then show "(highlightIndex d \<noteq> None) = (isVisible d \<and> isInteractive d = Some True)"
    by (simp add: entry_ok_def)
next
  fix r and fuel :: nat
  assume "rootId (buildAdvancedDomSnapshot a doc) = Some r \<and> 20 < fuel"
  then have r: "rootId (buildAdvancedDomSnapshot a doc) = Some r" and f: "20 < fuel" by simp_all
  let ?m = "snapshot_map (buildAdvancedDomSnapshot a doc)"
  from snapshot_preorder [OF r] obtain L where
    L: "\<forall>fuel > 20. snap_preorder fuel ?m r = L" "distinct (map fst L)"
       "set (map fst L) = dom ?m" "highlights L = [0 ..< length (highlights L)]"
       "\<forall>body. doc = Some body \<longrightarrow> map entry_view (element_entries L) = map element_view (kept 0 body)"
    by blast
  from L(1) f have e: "snap_preorder fuel ?m r = L" by blast
  show "distinct (map fst (snap_preorder fuel ?m r))" unfolding e by (rule L(2))
  show "set (map fst (snap_preorder fuel ?m r)) = dom ?m" unfolding e by (rule L(3))
  show "\<forall>(h, e) \<in> set (snap_preorder fuel ?m r). ?m h = Some e"
    by (auto dest: snap_preorder_entries)
  show "highlights (snap_preorder fuel ?m r) = [0 ..< length (highlights (snap_preorder fuel ?m r))]"
    unfolding e by (rule L(4))
  {
    fix body assume "doc = Some body"
    with L(5) show "map entry_view (element_entries (snap_preorder fuel ?m r)) = map element_view (kept 0 body)"
      unfolding e by blast
  }
  {
    fix body assume d: "doc = Some body"
    from r have "rootId (buildAdvancedDomSnapshot a (Some body)) = Some r" unfolding d .
    from snapshot_numbered [OF this f]
    show "map numbered_view (element_entries (snap_preorder fuel ?m r)) = numbered 0 (kept 0 body)"
      unfolding d .
  }
next
  assume "rootId (buildAdvancedDomSnapshot a doc) = None"
  then show "snapshot_map (buildAdvancedDomSnapshot a doc) = Map.empty" by (rule snapshot_no_root)
next
  fix body
  assume "doc = Some body \<and> rootId (buildAdvancedDomSnapshot a doc) = None"
  then have "rootId (buildAdvancedDomSnapshot a (Some body)) = None" by auto
  then show "kept 0 body = []" by (rule snapshot_root_present)
next
  fix e cs
  assume h: "doc = Some (ElementNode e cs) \<and> \<not> skipped_element e"
  show "rootId (buildAdvancedDomSnapshot a doc) \<noteq> None"
  proof
    assume "rootId (buildAdvancedDomSnapshot a doc) = None"
    with h have "rootId (buildAdvancedDomSnapshot a (Some (ElementNode e cs))) = None" by auto
    from snapshot_root_present [OF this] h show False by simp
  qed
next
  assume "doc = None"
  then show "rootId (buildAdvancedDomSnapshot a doc) = Some ''root_0''"
    by (simp add: snapshot_no_body)
next
  fix e hl
  assume "\<not> isElementVisible e"
  then show "init_nodeData e hl =
        (\<lparr> nd_tagName = toLowerCase (tagName e), nd_attributes = getElementAttributes e,
           children = [], isVisible = False, isInteractive = None, highlightIndex = None \<rparr>, hl)"
    by (rule init_nodeData_invisible)
next
  fix e :: element
  assume "style_display e = ''none''"
  then show "\<not> isElementVisible e" by (simp add: isElementVisible_def)
qed

theorem highlight_indices_dense_in_preorder_witness:
  "rootId (buildAdvancedDomSnapshot default_args (Some sample_body)) = Some ''element_4'' \<and>
   (20 :: nat) < 21 \<and>
   map fst (snap_preorder 21 (snapshot_map (buildAdvancedDomSnapshot default_args (Some sample_body)))
      ''element_4'') = [''element_4'', ''element_0'', ''element_1'', ''element_3'', ''text_2''] \<and>
   highlights (snap_preorder 21 (snapshot_map (buildAdvancedDomSnapshot default_args (Some sample_body)))
      ''element_4'') = [0, 1] \<and>
   [0 ..< length (highlights (snap_preorder 21
      (snapshot_map (buildAdvancedDomSnapshot default_args (Some sample_body))) ''element_4''))] = [0, 1] \<and>
   map numbered_view (element_entries (snap_preorder 21
      (snapshot_map (buildAdvancedDomSnapshot default_args (Some sample_body))) ''element_4'')) =
     [((''body'', True, Some False), None), ((''a'', True, Some True), Some 0),
      ((''button'', False, None), None), ((''button'', True, Some True), Some 1)] \<and>
   \<not> skipped_element (visible_el ''BODY'') \<and>
   style_display (hidden_el ''BUTTON'') = ''none'' \<and>
   \<not> isElementVisible (hidden_el ''BUTTON'') \<and>
   init_nodeData (hidden_el ''BUTTON'') 7 =
     (\<lparr> nd_tagName = ''button'', nd_attributes = Map.empty, children = [],
        isVisible = False, isInteractive = None, highlightIndex = None \<rparr>, 7)"
proof -
  let ?snap = "buildAdvancedDomSnapshot default_args (Some sample_body)"
  note T = highlight_indices_dense_in_preorder [where a = default_args and doc = "Some sample_body"]
  have r: "rootId ?snap = Some ''element_4'' \<and> (20 :: nat) < 21"
    by (simp add: sample_snapshot)
  have L: "map fst (snap_preorder 21 (snapshot_map ?snap) ''element_4'') =
      [''element_4'', ''element_0'', ''element_1'', ''element_3'', ''text_2'']"
    by (simp add: sample_snapshot snap_preorder_numeral entry_children_def)
  from T have T2: "\<forall>r fuel. rootId ?snap = Some r \<and> 20 < fuel \<longrightarrow>
      highlights (snap_preorder fuel (snapshot_map ?snap) r) =
        [0 ..< length (highlights (snap_preorder fuel (snapshot_map ?snap) r))] \<and>
      (\<forall>body. Some sample_body = Some body \<longrightarrow>
         map numbered_view (element_entries (snap_preorder fuel (snapshot_map ?snap) r)) =
         numbered 0 (kept 0 body))"
    by blast
  from T2 r have d: "highlights (snap_preorder 21 (snapshot_map ?snap) ''element_4'') =
      [0 ..< length (highlights (snap_preorder 21 (snapshot_map ?snap) ''element_4''))]"
    by blast
  from T2 r have "map numbered_view (element_entries (snap_preorder 21 (snapshot_map ?snap) ''element_4'')) =
      numbered 0 (kept 0 sample_body)"
    by blast
  then have n: "map numbered_view (element_entries (snap_preorder 21 (snapshot_map ?snap) ''element_4'')) =
     [((''body'', True, Some False), None), ((''a'', True, Some True), Some 0),
      ((''button'', False, None), None), ((''button'', True, Some True), Some 1)]"
    by (simp only: sample_kept)
  have h: "highlights (snap_preorder 21 (snapshot_map ?snap) ''element_4'') = [0, 1]"
    by (simp add: sample_snapshot snap_preorder_numeral entry_children_def highlights_def
          entry_highlight_def)
  have ns: "\<not> skipped_element (visible_el ''BODY'')" by (rule example_not_skipped)
  have dn: "style_display (hidden_el ''BUTTON'') = ''none''" by (simp add: example_visibility)
  from T dn have nv: "\<not> isElementVisible (hidden_el ''BUTTON'')" by blast
  from T nv have "init_nodeData (hidden_el ''BUTTON'') 7 =
      (\<lparr> nd_tagName = toLowerCase (tagName (hidden_el ''BUTTON'')),
         nd_attributes = getElementAttributes (hidden_el ''BUTTON''),
         children = [], isVisible = False, isInteractive = None, highlightIndex = None \<rparr>, 7)"
    by blast
  then have nd: "init_nodeData (hidden_el ''BUTTON'') 7 =
     (\<lparr> nd_tagName = ''button'', nd_attributes = Map.empty, children = [],
        isVisible = False, isInteractive = None, highlightIndex = None \<rparr>, 7)"
    by (simp add: example_nodeData)
  from r L h d n ns dn nv nd show ?thesis by simp
qed

text \<open>
  C10. The record of an element whose visibility test fails has neither an \<open>isInteractive\<close>
  nor a \<open>highlightIndex\<close> field (both are absent, not \<open>false\<close>), while the record of a
  visible element has an \<open>isInteractive\<close> field holding a boolean. The \<open>isVisible\<close> field is
  the result of the visibility test. So the element records of one snapshot need not have
  the same fields: some snapshot holds a record with \<open>isInteractive\<close> and one without.
\<close>

theorem invisible_records_lack_fields:
  "(\<forall>h d. snapshot_map (buildAdvancedDomSnapshot a doc) h = Some (ELEMENT d) \<longrightarrow>
      (if isVisible d then isInteractive d \<noteq> None
       else isInteractive d = None \<and> highlightIndex d = None)) \<and>
   (\<forall>e hl. isVisible (fst (init_nodeData e hl)) = isElementVisible e \<and>
      (if isElementVisible e
       then isInteractive (fst (init_nodeData e hl)) = Some (isInteractiveElement e)
       else isInteractive (fst (init_nodeData e hl)) = None \<and>
            highlightIndex (fst (init_nodeData e hl)) = None)) \<and>
   (\<exists>a' doc' h1 d1 h2 d2.
      snapshot_map (buildAdvancedDomSnapshot a' doc') h1 = Some (ELEMENT d1) \<and>
      snapshot_map (buildAdvancedDomSnapshot a' doc') h2 = Some (ELEMENT d2) \<and>
      isInteractive d1 = None \<and> highlightIndex d1 = None \<and> isInteractive d2 \<noteq> None)"
proof (intro conjI allI impI)
  fix h d
  assume "snapshot_map (buildAdvancedDomSnapshot a doc) h = Some (ELEMENT d)"
  with snapshot_entries_ok [of a doc] have "entry_ok (ELEMENT d)" by blast
  then show "if isVisible d then isInteractive d \<noteq> None
       else isInteractive d = None \<and> highlightIndex d = None"
    by (auto simp: entry_ok_def)
next
  fix e hl
  show "isVisible (fst (init_nodeData e hl)) = isElementVisible e"
    by (cases "isElementVisible e") (simp_all add: init_nodeData_invisible init_nodeData_visible)
  show "if isElementVisible e
       then isInteractive (fst (init_nodeData e hl)) = Some (isInteractiveElement e)
       else isInteractive (fst (init_nodeData e hl)) = None \<and>
            highlightIndex (fst (init_nodeData e hl)) = None"
    by (cases "isElementVisible e") (simp_all add: init_nodeData_invisible init_nodeData_visible)
next
  let ?m = "snapshot_map (buildAdvancedDomSnapshot default_args (Some sample_body))"
  let ?d1 = "\<lparr> nd_tagName = ''button'', nd_attributes = Map.empty, children = [],
              isVisible = False, isInteractive = None, highlightIndex = None \<rparr>"
  let ?d2 = "\<lparr> nd_tagName = ''a'', nd_attributes = Map.empty, children = [],
              isVisible = True, isInteractive = Some True, highlightIndex = Some 0 \<rparr>"
  have "?m ''element_1'' = Some (ELEMENT ?d1)" "?m ''element_0'' = Some (ELEMENT ?d2)"
    by (simp_all add: sample_snapshot)
  then have "?m ''element_1'' = Some (ELEMENT ?d1) \<and> ?m ''element_0'' = Some (ELEMENT ?d2) \<and>
      isInteractive ?d1 = None \<and> highlightIndex ?d1 = None \<and> isInteractive ?d2 \<noteq> None"
    by simp
  then show "\<exists>a' doc' h1 d1 h2 d2.
      snapshot_map (buildAdvancedDomSnapshot a' doc') h1 = Some (ELEMENT d1) \<and>
      snapshot_map (buildAdvancedDomSnapshot a' doc') h2 = Some (ELEMENT d2) \<and>
      isInteractive d1 = None \<and> highlightIndex d1 = None \<and> isInteractive d2 \<noteq> None"
    by blast
qed

theorem invisible_records_lack_fields_witness:
  "snapshot_map (buildAdvancedDomSnapshot default_args (Some sample_body)) ''element_1'' =
     Some (ELEMENT \<lparr> nd_tagName = ''button'', nd_attributes = Map.empty, children = [],
                     isVisible = False, isInteractive = None, highlightIndex = None \<rparr>) \<and>
   snapshot_map (buildAdvancedDomSnapshot default_args (Some sample_body)) ''element_3'' =
     Some (ELEMENT \<lparr> nd_tagName = ''button'', nd_attributes = Map.empty, children = [''text_2''],
                     isVisible = True, isInteractive = Some True, highlightIndex = Some 1 \<rparr>) \<and>
   (if isVisible \<lparr> nd_tagName = ''button'', nd_attributes = Map.empty, children = [],
                   isVisible = False, isInteractive = None, highlightIndex = (None :: nat option) \<rparr>
    then False else True) \<and>
   \<not> isElementVisible (hidden_el ''BUTTON'') \<and>
   isInteractive (fst (init_nodeData (hidden_el ''BUTTON'') 0)) = None \<and>
   highlightIndex (fst (init_nodeData (hidden_el ''BUTTON'') 0)) = None \<and>
   isElementVisible (visible_el ''BODY'') \<and>
   isInteractive (fst (init_nodeData (visible_el ''BODY'') 0)) = Some False"
proof -
  let ?m = "snapshot_map (buildAdvancedDomSnapshot default_args (Some sample_body))"
  let ?d1 = "\<lparr> nd_tagName = ''button'', nd_attributes = Map.empty, children = [],
              isVisible = False, isInteractive = None, highlightIndex = (None :: nat option) \<rparr>"
  note T = invisible_records_lack_fields [where a = default_args and doc = "Some sample_body"]
  have m1: "?m ''element_1'' = Some (ELEMENT ?d1)" by (simp add: sample_snapshot)
  have m3: "?m ''element_3'' =
     Some (ELEMENT \<lparr> nd_tagName = ''button'', nd_attributes = Map.empty, children = [''text_2''],
                     isVisible = True, isInteractive = Some True, highlightIndex = Some 1 \<rparr>)"
    by (simp add: sample_snapshot)
  from T m1 have "if isVisible ?d1 then isInteractive ?d1 \<noteq> None
      else isInteractive ?d1 = None \<and> highlightIndex ?d1 = None"
    by blast
  then have c1: "if isVisible ?d1 then False else True" by simp
  have v: "\<not> isElementVisible (hidden_el ''BUTTON'')" "isElementVisible (visible_el ''BODY'')"
    by (simp_all add: example_visibility)
  from T have e: "\<And>e hl. if isElementVisible e
       then isInteractive (fst (init_nodeData e hl)) = Some (isInteractiveElement e)
       else isInteractive (fst (init_nodeData e hl)) = None \<and>
            highlightIndex (fst (init_nodeData e hl)) = None"
    by blast
  from e [of "hidden_el ''BUTTON''" 0] v(1)
  have h: "isInteractive (fst (init_nodeData (hidden_el ''BUTTON'') 0)) = None"
    "highlightIndex (fst (init_nodeData (hidden_el ''BUTTON'') 0)) = None"
    by simp_all
  have b: "isInteractive (fst (init_nodeData (visible_el ''BODY'') 0)) = Some False"
    by (simp add: example_nodeData)
  from m1 m3 c1 v h b show ?thesis by simp
qed

text \<open>
  C4. The children of a node are processed only at a depth below 20. At depth 20 or more
  an element is recorded with an empty \<open>children\<close> array, and its child nodes have no
  effect at all: the result is that of the document with everything below the bound cut
  off (\<open>prune\<close>), so no handle, no map entry and no highlight index exists for a node
  deeper than 20. Read from its root, the snapshot has at most 21 levels: fuel 21 reads as
  much as any larger fuel.
\<close>

theorem depth_bound_cuts_children:
  "buildDomTree p (prune depth n) depth s = buildDomTree p n depth s \<and>
   buildAdvancedDomSnapshot a (map_option (prune 0) doc) = buildAdvancedDomSnapshot a doc \<and>
   (20 \<le> depth \<longrightarrow>
      buildDomTree p (ElementNode e cs) depth s = buildDomTree p (ElementNode e []) depth s \<and>
      (\<forall>h s'. buildDomTree p (ElementNode e cs) depth s = (Some h, s') \<longrightarrow>
         (\<exists>d. DOM_HASH_MAP s' h = Some (ELEMENT d) \<and> children d = []) \<and>
         dom (DOM_HASH_MAP s') = insert h (dom (DOM_HASH_MAP s)))) \<and>
   (\<forall>r fuel. rootId (buildAdvancedDomSnapshot a doc) = Some r \<and> 20 < fuel \<longrightarrow>
      snap_preorder fuel (snapshot_map (buildAdvancedDomSnapshot a doc)) r =
      snap_preorder 21 (snapshot_map (buildAdvancedDomSnapshot a doc)) r)"
proof (intro conjI allI impI)
  show "buildDomTree p (prune depth n) depth s = buildDomTree p n depth s"
    by (rule prune_same(1))
next
  show "buildAdvancedDomSnapshot a (map_option (prune 0) doc) = buildAdvancedDomSnapshot a doc"
    by (cases doc) (simp_all add: buildAdvancedDomSnapshot_def prune_same(1))
next
  assume "20 \<le> depth"
  then show "buildDomTree p (ElementNode e cs) depth s = buildDomTree p (ElementNode e []) depth s"
    by simp
next
  fix h s'
  assume d: "20 \<le> depth" and b: "buildDomTree p (ElementNode e cs) depth s = (Some h, s')"
  have ns: "\<not> skipped_element e"
  proof
    assume "skipped_element e"
    from buildDomTree_skip [OF this] b show False by simp
  qed
  obtain nodeData hl where nd: "init_nodeData e (cur_highlightIndex s) = (nodeData, hl)"
    by (cases "init_nodeData e (cur_highlightIndex s)")
  from d have k: "(if depth < 20
          then processChildren (Some e) cs (depth + 1) [] (s \<lparr> cur_highlightIndex := hl \<rparr>)
          else ([], s \<lparr> cur_highlightIndex := hl \<rparr>)) = ([], s \<lparr> cur_highlightIndex := hl \<rparr>)"
    by simp
  from buildDomTree_keep [OF ns nd k] b
  have h: "h = element_handle (ID_current s)"
    and s': "s' = store_element e nodeData [] (s \<lparr> cur_highlightIndex := hl \<rparr>)"
    by simp_all
  show "\<exists>d. DOM_HASH_MAP s' h = Some (ELEMENT d) \<and> children d = []"
    unfolding h s' by (simp add: store_element_def Let_def)
  show "dom (DOM_HASH_MAP s') = insert h (dom (DOM_HASH_MAP s))"
    unfolding h s' by (simp add: store_element_def Let_def)
next
  fix r and fuel :: nat
  assume "rootId (buildAdvancedDomSnapshot a doc) = Some r \<and> 20 < fuel"
  then have r: "rootId (buildAdvancedDomSnapshot a doc) = Some r" and f: "20 < fuel" by simp_all
  from snapshot_preorder [OF r] obtain L where
    L: "\<forall>fuel > 20. snap_preorder fuel (snapshot_map (buildAdvancedDomSnapshot a doc)) r = L"
    by blast
  from L f have "snap_preorder fuel (snapshot_map (buildAdvancedDomSnapshot a doc)) r = L" by blast
  moreover from L have "snap_preorder 21 (snapshot_map (buildAdvancedDomSnapshot a doc)) r = L" by simp
  ultimately show "snap_preorder fuel (snapshot_map (buildAdvancedDomSnapshot a doc)) r =
      snap_preorder 21 (snapshot_map (buildAdvancedDomSnapshot a doc)) r" by simp
qed

theorem depth_bound_cuts_children_witness:
  "(20 :: nat) \<le> 20 \<and>
   buildDomTree None (ElementNode (visible_el ''DIV'') [ElementNode (visible_el ''A'') []]) 20
       (initial_state default_args) =
     (Some ''element_0'',
      (initial_state default_args)
        \<lparr> ID_current := 1,
          DOM_HASH_MAP := [''element_0'' \<mapsto>
            ELEMENT \<lparr> nd_tagName = ''div'', nd_attributes = Map.empty, children = [],
                      isVisible = True, isInteractive = Some False, highlightIndex = None \<rparr>] \<rparr>) \<and>
   buildDomTree None (ElementNode (visible_el ''DIV'') []) 20 (initial_state default_args) =
     buildDomTree None (ElementNode (visible_el ''DIV'') [ElementNode (visible_el ''A'') []]) 20
       (initial_state default_args) \<and>
   rootId (buildAdvancedDomSnapshot default_args (Some sample_body)) = Some ''element_4'' \<and>
   (20 :: nat) < 30 \<and>
   snap_preorder 30 (snapshot_map (buildAdvancedDomSnapshot default_args (Some sample_body))) ''element_4'' =
   snap_preorder 21 (snapshot_map (buildAdvancedDomSnapshot default_args (Some sample_body))) ''element_4''"
proof -
  let ?deep = "ElementNode (visible_el ''DIV'') [ElementNode (visible_el ''A'') []]"
  note T = depth_bound_cuts_children [where a = default_args and doc = "Some sample_body"
      and depth = 20 and p = None and e = "visible_el ''DIV''"
      and cs = "[ElementNode (visible_el ''A'') []]" and s = "initial_state default_args"]
  have d: "(20 :: nat) \<le> 20" by simp
  from T d have c: "buildDomTree None ?deep 20 (initial_state default_args) =
      buildDomTree None (ElementNode (visible_el ''DIV'') []) 20 (initial_state default_args)"
    by blast
  have v: "buildDomTree None ?deep 20 (initial_state default_args) =
     (Some ''element_0'',
      (initial_state default_args)
        \<lparr> ID_current := 1,
          DOM_HASH_MAP := [''element_0'' \<mapsto>
            ELEMENT \<lparr> nd_tagName = ''div'', nd_attributes = Map.empty, children = [],
                      isVisible = True, isInteractive = Some False, highlightIndex = None \<rparr>] \<rparr>)"
    by (simp add: eval_dom initial_state_def default_args_def)
  have r: "rootId (buildAdvancedDomSnapshot default_args (Some sample_body)) = Some ''element_4'' \<and>
      (20 :: nat) < 30"
    by (simp add: sample_snapshot)
  from T r have f: "snap_preorder 30 (snapshot_map (buildAdvancedDomSnapshot default_args (Some sample_body)))
        ''element_4'' =
      snap_preorder 21 (snapshot_map (buildAdvancedDomSnapshot default_args (Some sample_body)))
        ''element_4''"
    by blast
  from d c v r f show ?thesis by simp
qed

text \<open>
  C8, evaluated on the document \<open><body></body>\<close> in debug mode. One node is visited and kept
  (the map has the one key \<open>element_0\<close>), and the three counters of
  \<open>perfMetrics.nodeMetrics\<close> are 0: the traversal never writes them.
\<close>

theorem perf_metrics_stay_zero:
  "debugMode debug_args \<and>
   dom (snapshot_map (buildAdvancedDomSnapshot debug_args (Some empty_body))) = {''element_0''} \<and>
   rootId (buildAdvancedDomSnapshot debug_args (Some empty_body)) = Some ''element_0'' \<and>
   perfMetrics (buildAdvancedDomSnapshot debug_args (Some empty_body)) =
     Some \<lparr> totalNodes = 0, processedNodes = 0, skippedNodes = 0 \<rparr>"
proof -
  have "debugMode debug_args" by (simp add: debug_args_def)
  then show ?thesis by (simp add: empty_body_snapshot)
qed

section \<open>Claims about the URL normalisation\<close>

lemma replace_all_no_match: "\<not> has_match m s \<Longrightarrow> replace_all m s = s"
  by (induction s) (auto split: option.splits)

lemma ensureUrlProtocol_duplicate:
  "ensureUrlProtocol ''https://https://app.example.com'' = ''https://app.example.com''"
  by (simp add: ensureUrlProtocol_def match_double_colon_def match_duplicate_def match_scheme_def)

lemma ensureUrlProtocol_no_scheme:
  "ensureUrlProtocol ''app.example.com'' = ''https://app.example.com''"
  by (simp add: ensureUrlProtocol_def match_double_colon_def match_duplicate_def match_scheme_def)

lemma ensureUrlProtocol_double_colon:
  "ensureUrlProtocol ''http:://app.example.com'' = ''https://app.example.com''"
  by (simp add: ensureUrlProtocol_def match_double_colon_def match_duplicate_def match_scheme_def)

lemma ensureUrlProtocol_unchanged:
  assumes "startsWith url ''http://'' \<or> startsWith url ''https://''"
    and "\<not> has_match match_double_colon url" and "\<not> has_match match_duplicate url"
  shows "ensureUrlProtocol url = url"
  using assms by (auto simp: ensureUrlProtocol_def replace_all_no_match)

lemma ensureUrlProtocol_grok_no_scheme:
  "ensureUrlProtocol_grok ''app.example.com'' = ''https://app.example.com''"
  by (simp add: ensureUrlProtocol_grok_def)

lemma ensureUrlProtocol_grok_unchanged:
  "startsWith url ''http://'' \<or> startsWith url ''https://'' \<Longrightarrow> ensureUrlProtocol_grok url = url"
  by (auto simp: ensureUrlProtocol_grok_def)

text \<open>
  C5, evaluated on \<^verbatim>\<open>"https://https://app.example.com"\<close>. The function of this name in
  \<open>grok.js\<close> returns the input as it is, since it begins with a scheme; the function of the
  server file returns \<^verbatim>\<open>"https://app.example.com"\<close>.
\<close>

theorem grok_keeps_duplicated_scheme:
  "ensureUrlProtocol_grok ''https://https://app.example.com'' = ''https://https://app.example.com'' \<and>
   ensureUrlProtocol_grok ''https://https://app.example.com'' \<noteq> ''https://app.example.com'' \<and>
   ensureUrlProtocol ''https://https://app.example.com'' = ''https://app.example.com''"
  using ensureUrlProtocol_duplicate by (simp add: ensureUrlProtocol_grok_def)

section \<open>Claims about executeAction\<close>

lemmas io_defs = io_bind_def io_return_def io_throw_def io_catch_def await_def
  promise_all2_def race_resolved_def

lemma selector_constants:
  "search_header \<noteq> search_input" "search_input \<noteq> search_header"
  "truthy search_header" "truthy search_input"
  by (simp_all add: search_header_def search_input_def)



lemma wait_duration_examples:
  "wait_duration JUndefined = 2000" "wait_duration (JStr ''soon'') = 2000"
  "wait_duration (JStr ''0'') = 2000" "wait_duration (JStr ''1500'') = 1500"
  "wait_duration (JStr ''1500ms'') = 1500"
  by (simp_all add: wait_duration_def parseInt_def parseInt_string_def Let_def is_white_def
        digit_value_def upt_rec)

lemma search_object_action_throws:
  "normalize_action search_object_action = Inl (TypeError ''action.inputFields?.find is not a function'')"
  by (simp add: normalize_action_def search_object_action_def get_prop_def Let_def forced_value_def
        search_field_value_def)

lemma normalize_action_substitutes:
  assumes "\<not> truthy (get_prop action ''selector'') \<or>
           get_prop action ''action'' \<notin> {JStr ''click'', JStr ''fill'', JStr ''press'', JStr ''wait''}"
    and "normalize_action action = Inr (selector, validAction, action')"
  shows "(selector = search_header \<and> validAction = JStr ''click'' \<and> action' = action \<and>
          \<not> truthy (get_prop action ''searchText'') \<and> \<not> truthy (get_prop action ''inputFields'') \<and>
          \<not> truthy (get_prop action ''search_query'')) \<or>
         (selector = search_input \<and> validAction = JStr ''fill'' \<and>
          (truthy (get_prop action ''searchText'') \<or> truthy (get_prop action ''inputFields'') \<or>
           truthy (get_prop action ''search_query'')) \<and>
          (\<exists>v. forced_value action = Inr v \<and> action' = set_prop action ''value'' v))"
  using assms by (auto simp: normalize_action_def Let_def split: if_splits sum.splits)

text \<open>
  C6, evaluated on an action of an unknown kind whose \<open>inputFields\<close> is an object,
  \<^verbatim>\<open>{"action": "search", "inputFields": {"placeholder": "Search", "value": "pizza"}}\<close>.
  The search-related field is present, so the value to fill is computed, and the call of
  \<open>find\<close> on the object throws outside the \<open>try\<close>: on every page \<open>executeAction\<close> is rejected
  with the type error, no call is made on the page, and no default action takes the place
  of the malformed one. An action of an unknown kind without such a field is replaced by
  the click on the search header, one with \<open>searchText\<close> by the fill of the search input.
\<close>

theorem malformed_input_fields_throw:
  "executeAction w search_object_action tr =
     (Inl (TypeError ''action.inputFields?.find is not a function''), search_object_action, tr) \<and>
   get_prop search_object_action ''action'' = JStr ''search'' \<and>
   executeAction all_resolve unknown_kind_action [] =
     (Inr succeeded, unknown_kind_action,
      [WaitForSelector search_header (Some ''visible'') 20000, Click search_header True,
       WaitForTimeout 1000]) \<and>
   executeAction all_resolve search_text_action [] =
     (Inr succeeded, search_text_action @ [(''value'', JStr ''tacos'')],
      [Click search_header True, WaitForTimeout 1000,
       WaitForSelector search_input (Some ''visible'') 20000, Click search_input True,
       Fill search_input (JStr ''tacos''), WaitForTimeout 500, IsVisible search_input])"
proof (intro conjI)
  show "executeAction w search_object_action tr =
     (Inl (TypeError ''action.inputFields?.find is not a function''), search_object_action, tr)"
    by (simp add: executeAction_def search_object_action_throws)
  show "get_prop search_object_action ''action'' = JStr ''search''"
    by (simp add: search_object_action_def get_prop_def)
  have n1: "normalize_action unknown_kind_action = Inr (search_header, JStr ''click'', unknown_kind_action)"
    by (simp add: normalize_action_def unknown_kind_action_def get_prop_def Let_def)
  have c1: "is_checkbox_action unknown_kind_action = Inr False"
    by (simp add: is_checkbox_action_def unknown_kind_action_def get_prop_def)
  show "executeAction all_resolve unknown_kind_action [] =
     (Inr succeeded, unknown_kind_action,
      [WaitForSelector search_header (Some ''visible'') 20000, Click search_header True,
       WaitForTimeout 1000])"
    by (simp add: executeAction_def n1 try_action_def selector_constants c1
          generic_action_def io_defs all_resolve_def)
  have n2: "normalize_action search_text_action =
     Inr (search_input, JStr ''fill'', search_text_action @ [(''value'', JStr ''tacos'')])"
    by (simp add: normalize_action_def search_text_action_def get_prop_def set_prop_def Let_def
          forced_value_def)
  have v: "get_prop (search_text_action @ [(''value'', JStr ''tacos'')]) ''value'' = JStr ''tacos''"
    by (simp add: search_text_action_def get_prop_def)
  show "executeAction all_resolve search_text_action [] =
     (Inr succeeded, search_text_action @ [(''value'', JStr ''tacos'')],
      [Click search_header True, WaitForTimeout 1000,
       WaitForSelector search_input (Some ''visible'') 20000, Click search_input True,
       Fill search_input (JStr ''tacos''), WaitForTimeout 500, IsVisible search_input])"
    by (simp add: executeAction_def n2 try_action_def fill_search_def v or_else_def
          io_defs all_resolve_def)
qed

lemma resolved_iff: "resolved out \<longleftrightarrow> (\<exists>v t. out = Resolved v t)"
  by (cases out) simp_all

lemma io_bind_Inr: "m w tr = (Inr x, tr') \<Longrightarrow> io_bind m f w tr = f x w tr'"
  by (simp add: io_bind_def)

lemma await_resolved:
  "resolved (w (tr @ [c])) \<Longrightarrow> io_bind (await c) (\<lambda>u. k) w tr = k w (tr @ [c])"
  by (auto simp: resolved_iff io_bind_def await_def)

lemma awaits_resolved:
  "(\<forall>i < length cs. resolved (w (tr @ take (Suc i) cs))) \<Longrightarrow> awaits cs w tr = (Inr (), tr @ cs)"
proof (induction cs arbitrary: tr)
  case Nil
  then show ?case by (simp add: io_return_def)
next
  case (Cons c cs)
  from Cons.prems have c: "resolved (w (tr @ [c]))" by fastforce
  have "\<forall>i < length cs. resolved (w ((tr @ [c]) @ take (Suc i) cs))"
  proof (intro allI impI)
    fix i assume "i < length cs"
    then have "Suc i < length (c # cs)" by simp
    with Cons.prems have "resolved (w (tr @ take (Suc (Suc i)) (c # cs)))" by blast
    then show "resolved (w ((tr @ [c]) @ take (Suc i) cs))" by simp
  qed
  from Cons.IH [OF this] c show ?case by (simp add: await_resolved)
qed

lemma promise_all2_resolved:
  "resolved (w (tr @ [a])) \<Longrightarrow> resolved (w (tr @ [a, b])) \<Longrightarrow>
     promise_all2 a b w tr = (Inr (), tr @ [a, b])"
  by (auto simp: resolved_iff promise_all2_def Let_def)

lemma race_both_rejected:
  "\<not> resolved (w (tr @ [a])) \<Longrightarrow> \<not> resolved (w (tr @ [a, b])) \<Longrightarrow>
     race_resolved a b w tr = (Inr False, tr @ [a, b])"
  by (simp add: race_resolved_def Let_def)

lemma press_enter_search_fails:
  assumes v: "verification_fails_twice w tr0"
  shows "press_enter_search search_input w tr0 =
     (Inl (Error ''Search failed to show results after retry''), tr0 @ press_enter_calls)"
proof -
  have len: "length press_enter_calls = 14" by (simp add: press_enter_calls_def)
  have R: "\<And>i. i < 14 \<Longrightarrow>
      resolved (w (tr0 @ take (Suc i) press_enter_calls)) =
      ([True, True, True, True, True, True, True, False, False,
        True, True, True, False, False] ! i)"
  proof -
    fix i :: nat assume i: "i < 14"
    from v have "outcomes_of w tr0 press_enter_calls ! i =
      [True, True, True, True, True, True, True, False, False,
        True, True, True, False, False] ! i"
      by (simp add: verification_fails_twice_def)
    with i len show "resolved (w (tr0 @ take (Suc i) press_enter_calls)) =
      ([True, True, True, True, True, True, True, False, False,
        True, True, True, False, False] ! i)"
      by (simp add: outcomes_of_def)
  qed
  note F = R [of 0] R [of 1] R [of 2] R [of 3] R [of 4] R [of 5] R [of 6] R [of 7]
    R [of 8] R [of 9] R [of 10] R [of 11] R [of 12] R [of 13]
  note G = F [simplified press_enter_calls_def, simplified]
  let ?c5 = "[Click search_header True, WaitForTimeout 1000,
              WaitForSelector search_input (Some ''visible'') 20000,
              Click search_input True, WaitForTimeout 500]"
  have a5: "awaits ?c5 w tr0 = (Inr (), tr0 @ ?c5)"
    using G by (intro awaits_resolved) (simp add: less_Suc_eq)
  have p1: "press_enter_and_load search_input w (tr0 @ ?c5) =
      (Inr (), tr0 @ take 7 press_enter_calls)"
    unfolding press_enter_and_load_def
    using G by (subst promise_all2_resolved) (simp_all add: press_enter_calls_def)
  have r1: "results_visible w (tr0 @ take 7 press_enter_calls) =
      (Inr False, tr0 @ take 9 press_enter_calls)"
    unfolding results_visible_def
    using G by (subst race_both_rejected) (simp_all add: press_enter_calls_def)
  have "\<exists>v. await (Click search_input True) w (tr0 @ take 9 press_enter_calls) =
      (Inr v, tr0 @ take 10 press_enter_calls)"
    using G by (auto simp: await_def press_enter_calls_def resolved_iff)
  then obtain x where c1: "await (Click search_input True) w (tr0 @ take 9 press_enter_calls) =
      (Inr x, tr0 @ take 10 press_enter_calls)" by blast
  have p2: "press_enter_and_load search_input w (tr0 @ take 10 press_enter_calls) =
      (Inr (), tr0 @ take 12 press_enter_calls)"
    unfolding press_enter_and_load_def
    using G by (subst promise_all2_resolved) (simp_all add: press_enter_calls_def)
  have r2: "results_visible w (tr0 @ take 12 press_enter_calls) =
      (Inr False, tr0 @ press_enter_calls)"
    unfolding results_visible_def
    using G by (subst race_both_rejected) (simp_all add: press_enter_calls_def)
  show ?thesis
    unfolding press_enter_search_def
    by (simp add: io_bind_Inr [where m = "awaits ?c5", OF a5]
          io_bind_Inr [where m = "press_enter_and_load search_input", OF p1]
          io_bind_Inr [where m = results_visible, OF r1]
          io_bind_Inr [where m = "await (Click search_input True)", OF c1]
          io_bind_Inr [where m = "press_enter_and_load search_input", OF p2]
          io_bind_Inr [where m = results_visible, OF r2] io_throw_def del: awaits.simps)
qed

lemma retry_message_not_hidden:
  "\<not> str_includes ''Search failed to show results after retry'' ''hidden''"
  by simp

lemma press_enter_action_fails:
  assumes "get_prop action ''selector'' = search_input"
    and "get_prop action ''action'' = JStr ''press''"
    and "get_prop action ''key'' = JStr ''Enter''"
    and v: "verification_fails_twice w tr0"
  shows "executeAction w action tr0 =
     ((case w (tr0 @ press_enter_calls @ [Screenshot ''error'']) of
         Resolved x t \<Rightarrow> Inr (failed ''Search failed to show results after retry'')
       | Rejected m t \<Rightarrow> Inl (Error m)),
      action, tr0 @ press_enter_calls @ [Screenshot ''error''])"
proof -
  have n: "normalize_action action = Inr (search_input, JStr ''press'', action)"
    using assms(1,2) by (simp add: normalize_action_def Let_def selector_constants)
  have t: "try_action search_input (JStr ''press'') action = press_enter_search search_input"
    using assms(3) by (simp add: try_action_def)
  show ?thesis
    by (simp add: executeAction_def n t io_catch_def press_enter_search_fails [OF v]
          catch_action_def retry_message_not_hidden io_bind_def await_def io_return_def
          split: outcome.splits)
qed

lemma press_enter_calls_counts:
  "press_count (press_enter_calls @ [Screenshot ''error'']) = 2"
  "expand_count (press_enter_calls @ [Screenshot ''error'']) = 1"
  by (simp_all add: press_count_def expand_count_def press_enter_calls_def selector_constants)

lemma no_indicator_scenario: "verification_fails_twice no_indicator []"
  by (simp add: verification_fails_twice_def outcomes_of_def press_enter_calls_def upt_rec
        no_indicator_def)

lemma press_enter_action_fields:
  "get_prop press_enter_action ''selector'' = search_input"
  "get_prop press_enter_action ''action'' = JStr ''press''"
  "get_prop press_enter_action ''key'' = JStr ''Enter''"
  by (simp_all add: press_enter_action_def get_prop_def)

lemma results_visible_trace:
  "results_visible w tr =
     (Inr (fst (results_visible w tr) = Inr True),
      tr @ [WaitForSelector save_to_list None 5000, WaitForSelector no_results None 5000])"
  by (simp add: results_visible_def race_resolved_def Let_def)

lemma press_enter_search_retries:
  assumes v: "first_verification_fails w tr0"
  shows "press_enter_search search_input w tr0 =
     (if retry_verified w tr0 then Inr succeeded
      else Inl (Error ''Search failed to show results after retry''), tr0 @ press_enter_calls)"
proof -
  have len: "length (take 12 press_enter_calls) = 12" by (simp add: press_enter_calls_def)
  have R: "\<And>i. i < 12 \<Longrightarrow>
      resolved (w (tr0 @ take (Suc i) (take 12 press_enter_calls))) =
      ([True, True, True, True, True, True, True, False, False, True, True, True] ! i)"
  proof -
    fix i :: nat assume i: "i < 12"
    from v have "outcomes_of w tr0 (take 12 press_enter_calls) ! i =
      [True, True, True, True, True, True, True, False, False, True, True, True] ! i"
      by (simp add: first_verification_fails_def)
    with i len show "resolved (w (tr0 @ take (Suc i) (take 12 press_enter_calls))) =
      ([True, True, True, True, True, True, True, False, False, True, True, True] ! i)"
      by (simp add: outcomes_of_def del: take_take)
  qed
  note F = R [of 0] R [of 1] R [of 2] R [of 3] R [of 4] R [of 5] R [of 6] R [of 7]
    R [of 8] R [of 9] R [of 10] R [of 11]
  note G = F [simplified press_enter_calls_def, simplified]
  let ?c5 = "[Click search_header True, WaitForTimeout 1000,
              WaitForSelector search_input (Some ''visible'') 20000,
              Click search_input True, WaitForTimeout 500]"
  have a5: "awaits ?c5 w tr0 = (Inr (), tr0 @ ?c5)"
    using G by (intro awaits_resolved) (simp add: less_Suc_eq)
  have p1: "press_enter_and_load search_input w (tr0 @ ?c5) =
      (Inr (), tr0 @ take 7 press_enter_calls)"
    unfolding press_enter_and_load_def
    using G by (subst promise_all2_resolved) (simp_all add: press_enter_calls_def)
  have r1: "results_visible w (tr0 @ take 7 press_enter_calls) =
      (Inr False, tr0 @ take 9 press_enter_calls)"
    unfolding results_visible_def
    using G by (subst race_both_rejected) (simp_all add: press_enter_calls_def)
  have "\<exists>v. await (Click search_input True) w (tr0 @ take 9 press_enter_calls) =
      (Inr v, tr0 @ take 10 press_enter_calls)"
    using G by (auto simp: await_def press_enter_calls_def resolved_iff)
  then obtain x where c1: "await (Click search_input True) w (tr0 @ take 9 press_enter_calls) =
      (Inr x, tr0 @ take 10 press_enter_calls)" by blast
  have p2: "press_enter_and_load search_input w (tr0 @ take 10 press_enter_calls) =
      (Inr (), tr0 @ take 12 press_enter_calls)"
    unfolding press_enter_and_load_def
    using G by (subst promise_all2_resolved) (simp_all add: press_enter_calls_def)
  have r2: "results_visible w (tr0 @ take 12 press_enter_calls) =
      (Inr (retry_verified w tr0), tr0 @ press_enter_calls)"
    by (subst results_visible_trace) (simp add: retry_verified_def press_enter_calls_def)
  show ?thesis
    unfolding press_enter_search_def
    by (simp add: io_bind_Inr [where m = "awaits ?c5", OF a5]
          io_bind_Inr [where m = "press_enter_and_load search_input", OF p1]
          io_bind_Inr [where m = results_visible, OF r1]
          io_bind_Inr [where m = "await (Click search_input True)", OF c1]
          io_bind_Inr [where m = "press_enter_and_load search_input", OF p2]
          io_bind_Inr [where m = results_visible, OF r2] io_throw_def io_return_def del: awaits.simps)
qed

lemma press_enter_action_retries:
  assumes "get_prop action ''selector'' = search_input"
    and "get_prop action ''action'' = JStr ''press''"
    and "get_prop action ''key'' = JStr ''Enter''"
    and v: "first_verification_fails w tr0"
  shows "executeAction w action tr0 =
     (if retry_verified w tr0 then (Inr succeeded, action, tr0 @ press_enter_calls)
      else ((case w (tr0 @ press_enter_calls @ [Screenshot ''error'']) of
               Resolved x t \<Rightarrow> Inr (failed ''Search failed to show results after retry'')
             | Rejected m t \<Rightarrow> Inl (Error m)),
            action, tr0 @ press_enter_calls @ [Screenshot ''error'']))"
proof -
  have n: "normalize_action action = Inr (search_input, JStr ''press'', action)"
    using assms(1,2) by (simp add: normalize_action_def Let_def selector_constants)
  have t: "try_action search_input (JStr ''press'') action = press_enter_search search_input"
    using assms(3) by (simp add: try_action_def)
  show ?thesis
    by (simp add: executeAction_def n t io_catch_def press_enter_search_retries [OF v]
          catch_action_def retry_message_not_hidden io_bind_def await_def io_return_def
          split: outcome.splits)
qed

lemma press_enter_calls_only_counts:
  "press_count press_enter_calls = 2" "expand_count press_enter_calls = 1"
  by (simp_all add: press_count_def expand_count_def press_enter_calls_def selector_constants)

lemma count_nil: "press_count [] = 0" "expand_count [] = 0"
  by (simp_all add: press_count_def expand_count_def)

lemma count_append:
  "press_count (a @ b) = press_count a + press_count b"
  "expand_count (a @ b) = expand_count a + expand_count b"
  by (simp_all add: press_count_def expand_count_def)

lemma retry_verified_both_rejected:
  "\<not> resolved (w (tr0 @ take 13 press_enter_calls)) \<Longrightarrow> \<not> resolved (w (tr0 @ press_enter_calls)) \<Longrightarrow>
     \<not> retry_verified w tr0"
  by (simp add: retry_verified_def results_visible_def race_resolved_def Let_def press_enter_calls_def)

lemma retry_verified_first_resolved:
  "resolved (w (tr0 @ take 13 press_enter_calls)) \<Longrightarrow>
   settle_time (w (tr0 @ take 13 press_enter_calls)) \<le> settle_time (w (tr0 @ press_enter_calls)) \<Longrightarrow>
     retry_verified w tr0"
  by (simp add: retry_verified_def results_visible_def race_resolved_def Let_def press_enter_calls_def)

lemma no_indicator_first: "first_verification_fails no_indicator []"
  by (simp add: first_verification_fails_def outcomes_of_def press_enter_calls_def upt_rec
        no_indicator_def)

lemma no_indicator_retry: "\<not> retry_verified no_indicator []"
  by (simp add: retry_verified_def results_visible_def race_resolved_def Let_def press_enter_calls_def
        no_indicator_def)

lemma results_after_retry_first: "first_verification_fails results_after_retry []"
  by (simp add: first_verification_fails_def outcomes_of_def press_enter_calls_def upt_rec
        results_after_retry_def press_count_def)

lemma results_after_retry_retry: "retry_verified results_after_retry []"
  by (simp add: retry_verified_def results_visible_def race_resolved_def Let_def press_enter_calls_def
        results_after_retry_def press_count_def)

text \<open>
  C3 as the claim states it fails: on a page where every call is resolved except the
  waits for the two indicators, the press of Enter on the search input ends in the failure
  "Search failed to show results after retry" after two presses, and the search section is
  expanded once only. The retry is not the full cycle of expand, click and press.
\<close>

theorem press_enter_retry_does_not_expand:
  "executeAction no_indicator press_enter_action [] =
     (Inr (failed ''Search failed to show results after retry''), press_enter_action,
      press_enter_calls @ [Screenshot ''error'']) \<and>
   expand_count (press_enter_calls @ [Screenshot ''error'']) = 1 \<and>
   \<not> spec_full_cycle_retry (press_enter_calls @ [Screenshot ''error''])"
  using press_enter_action_fails [OF press_enter_action_fields no_indicator_scenario]
  by (simp add: press_enter_calls_counts spec_full_cycle_retry_def no_indicator_def)

text \<open>
  C3 as amended. For a press of Enter on the search input, when neither indicator becomes
  visible at the first verification and every other call up to the retry's press is
  resolved: exactly one retry is made, which is a click on the input and a second press of
  Enter with its wait for the idle network, without a second expansion of the section. The
  calls are those of \<open>press_enter_calls\<close>; Enter is pressed twice and the section is expanded
  once in all. When the retry's verification succeeds the call returns success. When it
  fails, as it does when neither indicator becomes visible again, the error handler takes
  its screenshot and the call returns the failure "Search failed to show results after
  retry" (it is rejected with the error of the screenshot when that call is rejected).
\<close>

theorem press_enter_verification_retries_once:
  assumes "get_prop action ''selector'' = search_input"
    and "get_prop action ''action'' = JStr ''press''"
    and "get_prop action ''key'' = JStr ''Enter''"
    and "first_verification_fails w tr0"
  shows "executeAction w action tr0 =
     (if retry_verified w tr0 then (Inr succeeded, action, tr0 @ press_enter_calls)
      else ((case w (tr0 @ press_enter_calls @ [Screenshot ''error'']) of
               Resolved x t \<Rightarrow> Inr (failed ''Search failed to show results after retry'')
             | Rejected m t \<Rightarrow> Inl (Error m)),
            action, tr0 @ press_enter_calls @ [Screenshot ''error''])) \<and>
     press_count (snd (snd (executeAction w action tr0))) = press_count tr0 + 2 \<and>
     expand_count (snd (snd (executeAction w action tr0))) = expand_count tr0 + 1 \<and>
     drop 9 press_enter_calls =
       [Click search_input True,
        WaitForLoadState ''networkidle'' (Some 20000), Press search_input (JStr ''Enter''),
        WaitForSelector save_to_list None 5000, WaitForSelector no_results None 5000] \<and>
     (\<not> resolved (w (tr0 @ take 13 press_enter_calls)) \<and> \<not> resolved (w (tr0 @ press_enter_calls))
        \<longrightarrow> \<not> retry_verified w tr0)"
proof (intro conjI impI)
  note e = press_enter_action_retries [OF assms]
  show "executeAction w action tr0 =
     (if retry_verified w tr0 then (Inr succeeded, action, tr0 @ press_enter_calls)
      else ((case w (tr0 @ press_enter_calls @ [Screenshot ''error'']) of
               Resolved x t \<Rightarrow> Inr (failed ''Search failed to show results after retry'')
             | Rejected m t \<Rightarrow> Inl (Error m)),
            action, tr0 @ press_enter_calls @ [Screenshot ''error'']))"
    by (rule e)
  show "press_count (snd (snd (executeAction w action tr0))) = press_count tr0 + 2"
    unfolding e by (simp add: count_append press_enter_calls_only_counts) (simp add: press_count_def)
  show "expand_count (snd (snd (executeAction w action tr0))) = expand_count tr0 + 1"
    unfolding e by (simp add: count_append press_enter_calls_only_counts) (simp add: expand_count_def)
  show "drop 9 press_enter_calls =
       [Click search_input True,
        WaitForLoadState ''networkidle'' (Some 20000), Press search_input (JStr ''Enter''),
        WaitForSelector save_to_list None 5000, WaitForSelector no_results None 5000]"
    by (simp add: press_enter_calls_def)
next
  assume "\<not> resolved (w (tr0 @ take 13 press_enter_calls)) \<and> \<not> resolved (w (tr0 @ press_enter_calls))"
  then show "\<not> retry_verified w tr0" by (simp add: retry_verified_both_rejected)
qed

theorem press_enter_verification_retries_once_witness:
  "first_verification_fails no_indicator [] \<and> \<not> retry_verified no_indicator [] \<and>
   executeAction no_indicator press_enter_action [] =
     (Inr (failed ''Search failed to show results after retry''), press_enter_action,
      press_enter_calls @ [Screenshot ''error'']) \<and>
   first_verification_fails results_after_retry [] \<and> retry_verified results_after_retry [] \<and>
   executeAction results_after_retry press_enter_action [] =
     (Inr succeeded, press_enter_action, press_enter_calls) \<and>
   press_count (snd (snd (executeAction results_after_retry press_enter_action []))) = 2 \<and>
   expand_count (snd (snd (executeAction no_indicator press_enter_action []))) = 1"
proof -
  note A = press_enter_verification_retries_once [OF press_enter_action_fields no_indicator_first]
  note B = press_enter_verification_retries_once [OF press_enter_action_fields results_after_retry_first]
  from A have a: "executeAction no_indicator press_enter_action [] =
     (Inr (failed ''Search failed to show results after retry''), press_enter_action,
      press_enter_calls @ [Screenshot ''error''])"
    by (simp add: no_indicator_retry no_indicator_def)
  from A [THEN conjunct2, THEN conjunct2, THEN conjunct1]
  have a': "expand_count (snd (snd (executeAction no_indicator press_enter_action []))) = 1"
    by (simp add: count_nil)
  from B have b: "executeAction results_after_retry press_enter_action [] =
     (Inr succeeded, press_enter_action, press_enter_calls)"
    by (simp add: results_after_retry_retry)
  from B [THEN conjunct2, THEN conjunct1]
  have b': "press_count (snd (snd (executeAction results_after_retry press_enter_action []))) = 2"
    by (simp add: count_nil)
  from a a' b b' no_indicator_first no_indicator_retry results_after_retry_first results_after_retry_retry
  show ?thesis by blast
qed









end
